theory Spec2Isabelle
  imports Main "HOL-Library.Word"
begin

unbundle bit_operations_syntax

section \<open>The hash database (class HashOnlyBTCDB)\<close>

text \<open>
  The database object has two fields: \<open>hashes\<close> (\<open>null\<close> until a file has been loaded,
  then an array of BigInt values, each read from 8 bytes) and \<open>hashCount\<close>.
  A Node Buffer is a list of bytes. A JavaScript exception is a value of \<open>js_error\<close>
  (\<open>Error\<close> stands for whatever an external library throws); a method that can
  throw returns \<open>js_error + 'a\<close>.
\<close>

type_synonym u64 = "64 word"
type_synonym byte = "8 word"

datatype js_error = TypeError | RangeError | Error

record HashOnlyBTCDB =
  hashes :: "u64 list option"
  hashCount :: nat

definition new_HashOnlyBTCDB :: HashOnlyBTCDB where
  "new_HashOnlyBTCDB = \<lparr>hashes = None, hashCount = 0\<rparr>"

text \<open>
  The lines written with \<open>console.error\<close> and \<open>console.warn\<close> by \<open>loadDatabase\<close>, one
  constructor per call site (the informational \<open>console.log\<close> lines are left out).
\<close>

datatype console =
    ErrorTooSmall
  | ErrorInvalidMagic
  | ErrorInvalidHashSize
  | ErrorInsufficientData
  | ErrorLoading js_error
  | WarnNotSorted

subsection \<open>Reading the buffer\<close>

text \<open>
  \<open>buffer.toString('ascii', s, e)\<close>: Node decodes the bytes \<open>s..e-1\<close> with the highest bit
  of each byte cleared (the documented behaviour of the \<open>'ascii'\<close> encoding when decoding).
  The result is kept as its list of character codes, and a string literal is compared
  with it through \<open>of_char\<close>.
\<close>

definition ascii_slice :: "byte list \<Rightarrow> nat \<Rightarrow> nat \<Rightarrow> byte list" where
  "ascii_slice buffer s e = map (\<lambda>b. b AND 0x7F) (take (e - s) (drop s buffer))"

definition le64 :: "byte list \<Rightarrow> u64" where
  "le64 bs = foldr (\<lambda>b w. ucast b OR push_bit 8 w) bs 0"

text \<open>\<open>buffer.readBigUInt64LE(offset)\<close> throws a RangeError when fewer than 8 bytes remain.\<close>

definition readBigUInt64LE :: "byte list \<Rightarrow> nat \<Rightarrow> js_error + u64" where
  "readBigUInt64LE buffer offset =
     (if offset + 8 \<le> length buffer then Inr (le64 (take 8 (drop offset buffer)))
      else Inl RangeError)"

subsection \<open>verifyOrdering\<close>

text \<open>
  \<^verbatim>\<open>for (let i = 1; i < Math.min(1000, this.hashes.length); i++)
      if (this.hashes[i] <= this.hashes[i - 1]) return false;
  return true;\<close>
\<close>

function verifyOrdering_loop :: "u64 list \<Rightarrow> nat \<Rightarrow> bool" where
  "verifyOrdering_loop hs i =
     (if i < min 1000 (length hs)
      then (if hs ! i \<le> hs ! (i - 1) then False else verifyOrdering_loop hs (i + 1))
      else True)"
  by pat_completeness auto
termination
  by (relation "measure (\<lambda>(hs, i). min 1000 (length hs) - i)") auto

declare verifyOrdering_loop.simps [simp del]

definition verifyOrdering :: "HashOnlyBTCDB \<Rightarrow> js_error + bool" where
  "verifyOrdering db =
     (case hashes db of
        None \<Rightarrow> Inl TypeError
      | Some hs \<Rightarrow> Inr (verifyOrdering_loop hs 1))"

subsection \<open>xxhash64\<close>

text \<open>
  The loop body works on a BigInt masked to 64 bits after the rotation and after the
  multiplication; on a 64-bit word the shift and the product wrap in the same way.
  \<open>charCodeAt\<close> is the code of the character.
\<close>

definition xxhash64_step :: "u64 \<Rightarrow> char \<Rightarrow> u64" where
  "xxhash64_step h c =
     (let h1 = h XOR of_char c;
          h2 = push_bit 13 h1 OR drop_bit 51 h1
      in h2 * 0xc2b2ae3d27d4eb4f)"

definition xxhash64 :: "string \<Rightarrow> u64" where
  "xxhash64 str = foldl xxhash64_step 0x9e3779b185ebca87 str"

subsection \<open>binarySearch and hasAddress\<close>

text \<open>
  \<open>left\<close>, \<open>right\<close> and \<open>mid\<close> are JavaScript numbers holding integers; \<open>right\<close> is
  \<open>-1\<close> for an empty array. Reading an array outside its range gives \<open>undefined\<close>, which
  is neither equal to nor smaller than a BigInt, so the loop would take the last branch.
\<close>

function binarySearch_loop :: "u64 list \<Rightarrow> u64 \<Rightarrow> int \<Rightarrow> int \<Rightarrow> bool" where
  "binarySearch_loop hs targetHash left right =
     (if left \<le> right then
        (let mid = (left + right) div 2 in
         if 0 \<le> mid \<and> nat mid < length hs then
           (let midHash = hs ! nat mid in
            if midHash = targetHash then True
            else if midHash < targetHash then binarySearch_loop hs targetHash (mid + 1) right
            else binarySearch_loop hs targetHash left (mid - 1))
         else binarySearch_loop hs targetHash left (mid - 1))
      else False)"
  by pat_completeness auto
termination
  by (relation "measure (\<lambda>(hs, t, l, r). nat (r - l + 1))") auto

declare binarySearch_loop.simps [simp del]

definition binarySearch :: "HashOnlyBTCDB \<Rightarrow> u64 \<Rightarrow> js_error + bool" where
  "binarySearch db targetHash =
     (case hashes db of
        None \<Rightarrow> Inl TypeError
      | Some hs \<Rightarrow> Inr (binarySearch_loop hs targetHash 0 (int (length hs) - 1)))"

definition hasAddress :: "HashOnlyBTCDB \<Rightarrow> string \<Rightarrow> js_error + bool" where
  "hasAddress db address =
     (if hashes db = None \<or> length (the (hashes db)) = 0 then Inr False
      else binarySearch db (xxhash64 address))"

subsection \<open>loadDatabase\<close>

text \<open>
  The loop that converts the data bytes pushes onto \<open>this.hashes\<close>; an exception in the
  middle would leave the hashes read so far in the object.
\<close>

function read_hashes :: "byte list \<Rightarrow> nat \<Rightarrow> nat \<Rightarrow> u64 list \<Rightarrow> js_error option \<times> u64 list" where
  "read_hashes buffer n i acc =
     (if i < n then
        (case readBigUInt64LE buffer (24 + i * 8) of
           Inl e \<Rightarrow> (Some e, acc)
         | Inr h \<Rightarrow> read_hashes buffer n (i + 1) (acc @ [h]))
      else (None, acc))"
  by pat_completeness auto
termination
  by (relation "measure (\<lambda>(b, n, i, acc). n - i)") auto

declare read_hashes.simps [simp del]

text \<open>
  The result is the returned boolean, the error and warning lines printed, and the
  object after the call. \<open>this.hashCount\<close> is assigned before the hash size is checked.
  \<open>Number(this.hashCount) * 8\<close> is taken as the exact product: it is exact below
  \<open>2^53\<close>, and a larger count converts to at least \<open>2^53\<close>, which is more than the
  length of any Buffer. After the loop the first and last hash are printed with
  \<open>this.hashes[0].toString(16)\<close>, which throws a TypeError on an empty array; the
  \<open>catch\<close> turns every exception into \<open>return false\<close>.
\<close>

definition loadDatabase :: "HashOnlyBTCDB \<Rightarrow> byte list \<Rightarrow> bool \<times> console list \<times> HashOnlyBTCDB" where
  "loadDatabase db buffer =
     (if length buffer < 24 then (False, [ErrorTooSmall], db)
      else if ascii_slice buffer 0 8 \<noteq> map of_char ''BTCHASH1''
        then (False, [ErrorInvalidMagic], db)
      else
        (case readBigUInt64LE buffer 8 of
           Inl e \<Rightarrow> (False, [ErrorLoading e], db)
         | Inr count \<Rightarrow>
            (let db1 = db\<lparr>hashCount := unat count\<rparr> in
             case readBigUInt64LE buffer 16 of
               Inl e \<Rightarrow> (False, [ErrorLoading e], db1)
             | Inr hashSize \<Rightarrow>
                if hashSize \<noteq> 8 then (False, [ErrorInvalidHashSize], db1)
                else
                  (let expectedDataSize = unat count * 8;
                       actualDataSize = length buffer - 24
                   in if actualDataSize < expectedDataSize
                      then (False, [ErrorInsufficientData], db1)
                      else
                        (case read_hashes buffer (unat count) 0 [] of
                           (Some e, hs) \<Rightarrow> (False, [ErrorLoading e], db1\<lparr>hashes := Some hs\<rparr>)
                         | (None, hs) \<Rightarrow>
                            (let db2 = db1\<lparr>hashes := Some hs\<rparr> in
                             if hs = [] then (False, [ErrorLoading TypeError], db2)
                             else
                               (case verifyOrdering db2 of
                                  Inl e \<Rightarrow> (False, [ErrorLoading e], db2)
                                | Inr ordered \<Rightarrow>
                                    (True, (if \<not> ordered then [WarnNotSorted] else []), db2))))))))"


section \<open>The search (class SeedPermutationRecovery)\<close>

subsection \<open>Arrays with empty slots, found records\<close>

text \<open>
  An element of a JavaScript array of objects is an empty slot (as in \<open>new Array(12)\<close>),
  \<open>null\<close> (as \<open>JSON.parse\<close> produces) or an object.
\<close>

datatype 'a slot = Hole | Null | Item 'a

record found_address =
  index :: nat
  address :: string
  path :: string

record found_seed =
  seedPhrase :: string
  foundAddresses :: "found_address slot list"
  filename :: string

text \<open>
  The libraries bip39, bip32 and bitcoinjs-lib are outside the repository. They are a
  parameter: the mnemonic check, the derivation of the account node
  \<open>m/44'/0'/0'/0\<close> from the phrase, and the address of the child \<open>i\<close> of an account.
  Each may throw.
\<close>

record 'acct bitcoin_libs =
  validateMnemonic :: "string \<Rightarrow> js_error + bool"
  deriveAccount :: "string \<Rightarrow> js_error + 'acct"
  deriveAddress :: "'acct \<Rightarrow> nat \<Rightarrow> js_error + string"

text \<open>
  The fields of the search object that the search reads and writes. The estimate
  \<open>totalCombinations\<close>, the start times and the display flag only feed the dashboard.
\<close>

record SeedPermutationRecovery =
  database :: HashOnlyBTCDB
  wordlist :: "string list"
  checkedCombinations :: nat
  sessionCombinations :: nat
  foundSeeds :: "found_seed list"
  currentIndices :: "nat list option"

definition new_SeedPermutationRecovery :: "HashOnlyBTCDB \<Rightarrow> string list \<Rightarrow> SeedPermutationRecovery" where
  "new_SeedPermutationRecovery db wl =
     \<lparr>database = db, wordlist = wl, checkedCombinations = 0, sessionCombinations = 0,
      foundSeeds = [], currentIndices = None\<rparr>"

subsection \<open>generateCombination\<close>

text \<open>
  \<open>[wl[indices[0]], ..., wl[indices[11]]].join(' ')\<close>. An index outside the array gives
  \<open>undefined\<close>, which \<open>join\<close> prints as the empty string.
\<close>

definition word_at :: "string list \<Rightarrow> nat list \<Rightarrow> nat \<Rightarrow> string" where
  "word_at wl indices k =
     (if k < length indices \<and> indices ! k < length wl then wl ! (indices ! k) else [])"

fun join_space :: "string list \<Rightarrow> string" where
  "join_space [] = []"
| "join_space [w] = w"
| "join_space (w # ws) = w @ '' '' @ join_space ws"

definition generateCombination :: "string list \<Rightarrow> nat list \<Rightarrow> string" where
  "generateCombination wl indices = join_space (map (word_at wl indices) [0..<12])"

subsection \<open>nextCombination\<close>

text \<open>
  The array is one of 12 non-negative integers small enough for the additions to be
  exact, as \<open>startPermutationSearch\<close> builds it.
  \<open>scan_back indices (i + 1)\<close> is the value of \<open>i\<close> after
  \<^verbatim>\<open>while (i >= 0 && indices[i] === 2036 + i) i--;\<close>
  started at \<open>i\<close>, with \<open>None\<close> for \<open>i < 0\<close>; the loop starts with \<open>i = 11\<close>.
\<close>

fun scan_back :: "nat list \<Rightarrow> nat \<Rightarrow> nat option" where
  "scan_back indices 0 = None"
| "scan_back indices (Suc i) =
     (if i < length indices \<and> indices ! i = 2036 + i then scan_back indices i else Some i)"

text \<open>
  The \<open>switch (11 - i)\<close> has the cases 11 down to 1 without \<open>break\<close>: entered at case
  \<open>j\<close>, it runs \<open>indices[i+j] = val + j\<close>, then the cases below it down to
  \<open>indices[i+1] = val + 1\<close>. \<open>refill indices i val j\<close> is the array after entering at \<open>j\<close>.
\<close>

fun refill :: "nat list \<Rightarrow> nat \<Rightarrow> nat \<Rightarrow> nat \<Rightarrow> nat list" where
  "refill indices i val 0 = indices"
| "refill indices i val (Suc j) = refill (indices[i + Suc j := val + Suc j]) i val j"

text \<open>The result is the returned boolean and the array after the call (it is updated in place).\<close>

definition nextCombination :: "nat list \<Rightarrow> bool \<times> nat list" where
  "nextCombination indices =
     (case scan_back indices 12 of
        None \<Rightarrow> (False, indices)
      | Some i \<Rightarrow>
          (let val = indices ! i + 1;
               indices1 = indices[i := val]
           in (True, refill indices1 i val (11 - i))))"

subsection \<open>generateAddresses and checkSeedPhrase\<close>

function derive_loop :: "'acct bitcoin_libs \<Rightarrow> 'acct \<Rightarrow> nat \<Rightarrow> nat \<Rightarrow> string list \<Rightarrow> js_error + string list" where
  "derive_loop L account count i addresses =
     (if i < count then
        (case deriveAddress L account i of
           Inl e \<Rightarrow> Inl e
         | Inr a \<Rightarrow> derive_loop L account count (i + 1) (addresses @ [a]))
      else Inr addresses)"
  by pat_completeness auto
termination
  by (relation "measure (\<lambda>(L, account, count, i, addresses). count - i)") auto

declare derive_loop.simps [simp del]

text \<open>The body of the \<open>try\<close> block of \<open>generateAddresses\<close>.\<close>

definition generateAddresses_try :: "'acct bitcoin_libs \<Rightarrow> string \<Rightarrow> nat \<Rightarrow> js_error + string list" where
  "generateAddresses_try L phrase count =
     (case validateMnemonic L phrase of
        Inl e \<Rightarrow> Inl e
      | Inr valid \<Rightarrow>
          if \<not> valid then Inr []
          else (case deriveAccount L phrase of
                  Inl e \<Rightarrow> Inl e
                | Inr account \<Rightarrow> derive_loop L account count 0 []))"

text \<open>The \<open>catch\<close> block is \<open>return []\<close> and nothing else.\<close>

definition generateAddresses :: "'acct bitcoin_libs \<Rightarrow> string \<Rightarrow> nat \<Rightarrow> string list" where
  "generateAddresses L phrase count =
     (case generateAddresses_try L phrase count of
        Inl e \<Rightarrow> []
      | Inr addresses \<Rightarrow> addresses)"

fun show_nat :: "nat \<Rightarrow> string" where
  "show_nat n =
     (if n < 10 then [''0123456789'' ! n]
      else show_nat (n div 10) @ [''0123456789'' ! (n mod 10)])"

declare show_nat.simps [simp del]

definition path_prefix :: string where
  "path_prefix = ''m/44'/0'/0'/0/''"

function checkSeedPhrase_loop ::
  "HashOnlyBTCDB \<Rightarrow> string list \<Rightarrow> nat \<Rightarrow> found_address slot list \<Rightarrow> bool
     \<Rightarrow> js_error + (found_address slot list \<times> bool)" where
  "checkSeedPhrase_loop db addresses i foundAddrs found =
     (if i < length addresses then
        (case hasAddress db (addresses ! i) of
           Inl e \<Rightarrow> Inl e
         | Inr hit \<Rightarrow>
             if hit then
               checkSeedPhrase_loop db addresses (i + 1)
                 (foundAddrs @ [Item \<lparr>index = i, address = addresses ! i,
                                      path = path_prefix @ show_nat i\<rparr>])
                 True
             else checkSeedPhrase_loop db addresses (i + 1) foundAddrs found)
      else Inr (foundAddrs, found))"
  by pat_completeness auto
termination
  by (relation "measure (\<lambda>(db, addresses, i, foundAddrs, found). length addresses - i)") auto

declare checkSeedPhrase_loop.simps [simp del]

text \<open>
  \<open>const foundAddresses = new Array(12)\<close> is an array of length 12 whose slots are all
  empty; \<open>push\<close> appends after them. \<open>generateAddresses\<close> is called with its default
  count of 20.
\<close>

definition checkSeedPhrase ::
  "'acct bitcoin_libs \<Rightarrow> HashOnlyBTCDB \<Rightarrow> string \<Rightarrow> js_error + (found_address slot list \<times> bool)" where
  "checkSeedPhrase L db phrase =
     checkSeedPhrase_loop db (generateAddresses L phrase 20) 0 (replicate 12 Hole) False"

subsection \<open>The checkpoint file\<close>

text \<open>
  The file \<open>recovery_checkpoint.json\<close> is absent, holds text that \<open>JSON.parse\<close> rejects,
  or holds an object. Of the object the fields \<open>indices\<close>, \<open>checkedCombinations\<close> and
  \<open>foundSeeds\<close> are read back (\<open>timestamp\<close> and \<open>elapsedTime\<close> are only printed); a field
  that is missing or \<open>null\<close> is \<open>None\<close>. The indices are an array of non-negative
  integers and the counter is a non-negative integer, as \<open>saveCheckpoint\<close> writes them.
\<close>

record checkpoint =
  cp_indices :: "nat list option"
  cp_checkedCombinations :: "nat option"
  cp_foundSeeds :: "found_seed list option"

datatype checkpoint_file = NoFile | Unparsable | Json checkpoint

text \<open>\<open>JSON.stringify\<close> writes an empty slot of an array as \<open>null\<close>.\<close>

definition stringify_slot :: "'a slot \<Rightarrow> 'a slot" where
  "stringify_slot s = (case s of Hole \<Rightarrow> Null | Null \<Rightarrow> Null | Item x \<Rightarrow> Item x)"

definition stringify_seed :: "found_seed \<Rightarrow> found_seed" where
  "stringify_seed fs = fs\<lparr>foundAddresses := map stringify_slot (foundAddresses fs)\<rparr>"

text \<open>
  \<open>saveCheckpoint\<close>: \<open>writeFileSync\<close> either replaces the file (\<open>write_ok\<close>) or throws, and
  the \<open>catch\<close> only prints the error.
\<close>

definition saveCheckpoint :: "bool \<Rightarrow> SeedPermutationRecovery \<Rightarrow> checkpoint_file \<Rightarrow> checkpoint_file" where
  "saveCheckpoint write_ok st file =
     (if write_ok then
        Json \<lparr>cp_indices = currentIndices st,
              cp_checkedCombinations = Some (checkedCombinations st),
              cp_foundSeeds = Some (map stringify_seed (foundSeeds st))\<rparr>
      else file)"

text \<open>
  \<open>loadCheckpoint\<close>: \<open>if (checkpoint.indices)\<close> holds for every array;
  \<open>checkpoint.checkedCombinations || 0\<close> and \<open>checkpoint.foundSeeds || []\<close> supply the
  defaults.
\<close>

definition loadCheckpoint :: "SeedPermutationRecovery \<Rightarrow> checkpoint_file \<Rightarrow> SeedPermutationRecovery" where
  "loadCheckpoint st file =
     (case file of
        NoFile \<Rightarrow> st
      | Unparsable \<Rightarrow> st
      | Json cp \<Rightarrow>
          (case cp_indices cp of
             None \<Rightarrow> st
           | Some ind \<Rightarrow>
               st\<lparr>currentIndices := Some ind,
                  checkedCombinations := (case cp_checkedCombinations cp of None \<Rightarrow> 0 | Some n \<Rightarrow> n),
                  foundSeeds := (case cp_foundSeeds cp of None \<Rightarrow> [] | Some fs \<Rightarrow> fs)\<rparr>))"

subsection \<open>startPermutationSearch\<close>

text \<open>
  What a session of the process meets from outside: the libraries, the wall clock
  (the ISO time stamp when attempt \<open>n\<close> is tested, used for the name of a result file),
  whether the 60 second checkpoint timer is due and whether a SIGINT is pending when
  the loop yields after attempt \<open>n\<close>, and whether the checkpoint file can be written.
\<close>

record 'acct session =
  libs :: "'acct bitcoin_libs"
  clock :: "nat \<Rightarrow> string"
  timer_due :: "nat \<Rightarrow> bool"
  sigint :: "nat \<Rightarrow> bool"
  disk_ok :: bool

datatype outcome = Exhausted | Interrupted | Crashed js_error | OutOfFuel

text \<open>
  The counters are JavaScript numbers (doubles) that hold non-negative integers. \<open>n++\<close>
  stores the double nearest to \<open>n + 1\<close>: that is \<open>n + 1\<close> below \<open>2^53\<close>; from \<open>2^53\<close> to
  \<open>2^54\<close> the doubles are the even numbers, \<open>n + 1\<close> lies halfway between two of them
  and the one with the even significand \<open>n / 2\<close> or \<open>n / 2 + 1\<close> is taken; from \<open>2^54\<close> on
  the nearest double is \<open>n\<close> itself.
\<close>

definition js_increment :: "nat \<Rightarrow> nat" where
  "js_increment n =
     (if n < 2 ^ 53 then n + 1
      else if n < 2 ^ 54 \<and> odd (n div 2) then n + 2
      else n)"

text \<open>The statements of the loop body that follow \<open>attempts++\<close>.\<close>

definition count_attempt :: "SeedPermutationRecovery \<Rightarrow> nat list \<Rightarrow> SeedPermutationRecovery" where
  "count_attempt st indices =
     st\<lparr>checkedCombinations := js_increment (checkedCombinations st),
        sessionCombinations := js_increment (sessionCombinations st),
        currentIndices := Some indices\<rparr>"

text \<open>
  The loop body up to the yield. \<open>saveSeedPhrase\<close> names the result file
  \<open>found_seed_<time stamp>.txt\<close>; writing that file is not modelled.
\<close>

definition iteration ::
  "'acct bitcoin_libs \<Rightarrow> string \<Rightarrow> SeedPermutationRecovery \<Rightarrow> nat list \<Rightarrow> js_error + SeedPermutationRecovery" where
  "iteration L now st indices =
     (let st1 = count_attempt st indices;
          phrase = generateCombination (wordlist st1) indices
      in case checkSeedPhrase L (database st1) phrase of
           Inl e \<Rightarrow> Inl e
         | Inr (foundAddrs, found) \<Rightarrow>
             Inr (if found
                  then st1\<lparr>foundSeeds := foundSeeds st1 @
                         [\<lparr>seedPhrase = phrase, foundAddresses = foundAddrs,
                           filename = ''found_seed_'' @ now @ ''.txt''\<rparr>]\<rparr>
                  else st1))"

text \<open>
  What the loop body prints: nothing unless \<open>found\<close> holds, and then the block that
  starts with \<open>SEED PHRASE FOUND!\<close>. \<open>SeedFound phrase n\<close> stands for that block, with
  the phrase of its line \<open>Seed:\<close> and the number of its line
  \<open>Addresses with balance found:\<close>, which is \<open>foundAddresses.length\<close>.
\<close>

datatype search_line = SeedFound string nat

definition iteration_output ::
  "'acct bitcoin_libs \<Rightarrow> HashOnlyBTCDB \<Rightarrow> string list \<Rightarrow> nat list \<Rightarrow> search_line list" where
  "iteration_output L db wl indices =
     (let phrase = generateCombination wl indices
      in case checkSeedPhrase L db phrase of
           Inl e \<Rightarrow> []
         | Inr (foundAddrs, found) \<Rightarrow>
             if found then [SeedFound phrase (length foundAddrs)] else [])"

text \<open>
  \<open>await new Promise(resolve => setImmediate(resolve))\<close> is the only point where the
  interval callback and the SIGINT handler can run. The interval callback saves a
  checkpoint; the SIGINT handler saves a checkpoint and ends the process. The result is
  the file and whether the process ended.
\<close>

definition yield_to_event_loop ::
  "'acct session \<Rightarrow> nat \<Rightarrow> SeedPermutationRecovery \<Rightarrow> checkpoint_file \<Rightarrow> checkpoint_file \<times> bool" where
  "yield_to_event_loop S attempts st file =
     (let file1 = (if timer_due S attempts then saveCheckpoint (disk_ok S) st file else file)
      in if sigint S attempts then (saveCheckpoint (disk_ok S) st file1, True)
         else (file1, False))"

text \<open>
  The \<open>do ... while (this.nextCombination(indices))\<close> loop with its \<open>finally\<close> block. The
  first argument bounds the number of passes; \<open>OutOfFuel\<close> is the answer when the bound
  is reached with the loop still running.
\<close>

fun search_loop ::
  "nat \<Rightarrow> 'acct session \<Rightarrow> nat \<Rightarrow> SeedPermutationRecovery \<Rightarrow> nat list \<Rightarrow> checkpoint_file
     \<Rightarrow> outcome \<times> SeedPermutationRecovery \<times> checkpoint_file" where
  "search_loop 0 S attempts st indices file = (OutOfFuel, st, file)"
| "search_loop (Suc fuel) S attempts st indices file =
     (let attempts1 = js_increment attempts in
      case iteration (libs S) (clock S attempts1) st indices of
        Inl e \<Rightarrow>
          (let st1 = count_attempt st indices
           in (Crashed e, st1, saveCheckpoint (disk_ok S) st1 file))
      | Inr st1 \<Rightarrow>
          (let (file1, ended) =
                 (if attempts1 mod 1000 = 0 then yield_to_event_loop S attempts1 st1 file
                  else (file, False))
           in if ended then (Interrupted, st1, file1)
              else
                (case nextCombination indices of
                   (False, indices1) \<Rightarrow>
                     (let st2 = st1\<lparr>currentIndices := Some indices1\<rparr>
                      in (Exhausted, st2, saveCheckpoint (disk_ok S) st2 file1))
                 | (True, indices1) \<Rightarrow> search_loop fuel S attempts1 st1 indices1 file1)))"

definition first_combination :: "nat list" where
  "first_combination = [0..<12]"

definition startPermutationSearch ::
  "nat \<Rightarrow> 'acct session \<Rightarrow> SeedPermutationRecovery \<Rightarrow> checkpoint_file
     \<Rightarrow> outcome \<times> SeedPermutationRecovery \<times> checkpoint_file" where
  "startPermutationSearch fuel S st file =
     (let indices = (case currentIndices st of Some ci \<Rightarrow> ci | None \<Rightarrow> first_combination)
      in search_loop fuel S 0 st indices file)"

text \<open>
  A run of the program: a new object, \<open>loadCheckpoint\<close>, then the search (loading the
  database and the word list comes first in \<open>initialize\<close>; here they are given).
\<close>

definition main_run ::
  "nat \<Rightarrow> 'acct session \<Rightarrow> HashOnlyBTCDB \<Rightarrow> string list \<Rightarrow> checkpoint_file
     \<Rightarrow> outcome \<times> SeedPermutationRecovery \<times> checkpoint_file" where
  "main_run fuel S db wl file =
     startPermutationSearch fuel S (loadCheckpoint (new_SeedPermutationRecovery db wl) file) file"

section \<open>The enumeration order\<close>

text \<open>
  A combination state for \<open>n = 2048\<close>, \<open>k = 12\<close>: 12 strictly increasing indices with
  \<open>idx[i] \<le> 2036 + i\<close>. The lexicographic order compares leftmost first.
\<close>

definition valid_state :: "nat list \<Rightarrow> bool" where
  "valid_state s \<longleftrightarrow>
     length s = 12 \<and> sorted_wrt (<) s \<and> list_all (\<lambda>i. s ! i \<le> 2036 + i) [0..<12]"

fun lex_less :: "nat list \<Rightarrow> nat list \<Rightarrow> bool" where
  "lex_less [] [] = False"
| "lex_less [] (y # ys) = True"
| "lex_less (x # xs) [] = False"
| "lex_less (x # xs) (y # ys) = (x < y \<or> (x = y \<and> lex_less xs ys))"


section \<open>Auxiliary notions for the statements\<close>

text \<open>The array of hashes that a buffer with \<open>n\<close> data entries holds after its header.\<close>

definition data_hashes :: "byte list \<Rightarrow> nat \<Rightarrow> u64 list" where
  "data_hashes buffer n = map (\<lambda>k. le64 (take 8 (drop (24 + k * 8) buffer))) [0..<n]"

text \<open>
  The object that \<open>checkSeedPhrase\<close> pushes for position \<open>k\<close>, and the positions from
  \<open>i\<close> on whose address is in the database.
\<close>

definition found_entry :: "string list \<Rightarrow> nat \<Rightarrow> found_address slot" where
  "found_entry addresses k =
     Item \<lparr>index = k, address = addresses ! k, path = path_prefix @ show_nat k\<rparr>"

definition matching_positions :: "HashOnlyBTCDB \<Rightarrow> string list \<Rightarrow> nat \<Rightarrow> nat list" where
  "matching_positions db addresses i =
     filter (\<lambda>k. hasAddress db (addresses ! k) = Inr True) [i..<length addresses]"

section \<open>Concrete inputs\<close>

text \<open>
  A database file with one hash, 5, whose first byte is \<open>0xC2\<close> where the magic has
  \<open>0x42\<close> (\<open>B\<close>); and a well-formed file holding the hashes 2 and 1 in this order.
\<close>

definition high_bit_magic_file :: "byte list" where
  "high_bit_magic_file =
     [0xC2, 0x54, 0x43, 0x48, 0x41, 0x53, 0x48, 0x31,
      1, 0, 0, 0, 0, 0, 0, 0,
      8, 0, 0, 0, 0, 0, 0, 0,
      5, 0, 0, 0, 0, 0, 0, 0]"

definition unsorted_pair_file :: "byte list" where
  "unsorted_pair_file =
     [0x42, 0x54, 0x43, 0x48, 0x41, 0x53, 0x48, 0x31,
      2, 0, 0, 0, 0, 0, 0, 0,
      8, 0, 0, 0, 0, 0, 0, 0,
      2, 0, 0, 0, 0, 0, 0, 0,
      1, 0, 0, 0, 0, 0, 0, 0]"

definition four_hash_db :: HashOnlyBTCDB where
  "four_hash_db = \<lparr>hashes = Some [10, 20, 30, 40], hashCount = 4\<rparr>"

text \<open>
  Three stand-ins for the libraries: one that finds no phrase valid, one whose
  derivation throws, and one that derives the addresses \<open>a0\<close>, \<open>a1\<close>, ... for every
  phrase. A database that holds the hash of the address \<open>a3\<close>.
\<close>

definition rejecting_libs :: "unit bitcoin_libs" where
  "rejecting_libs =
     \<lparr>validateMnemonic = (\<lambda>p. Inr False), deriveAccount = (\<lambda>p. Inr ()),
      deriveAddress = (\<lambda>a i. Inr [])\<rparr>"

definition throwing_libs :: "unit bitcoin_libs" where
  "throwing_libs =
     \<lparr>validateMnemonic = (\<lambda>p. Inr True), deriveAccount = (\<lambda>p. Inl Error),
      deriveAddress = (\<lambda>a i. Inr [])\<rparr>"

definition matching_libs :: "unit bitcoin_libs" where
  "matching_libs =
     \<lparr>validateMnemonic = (\<lambda>p. Inr True), deriveAccount = (\<lambda>p. Inr ()),
      deriveAddress = (\<lambda>a i. Inr (''a'' @ show_nat i))\<rparr>"

definition hit_db :: HashOnlyBTCDB where
  "hit_db = \<lparr>hashes = Some [xxhash64 ''a3''], hashCount = 1\<rparr>"

text \<open>
  A word list of 2048 words, the words being the numbers 0 to 2047, and the phrase of
  its first combination.
\<close>

definition numbered_wordlist :: "string list" where
  "numbered_wordlist = map show_nat [0..<2048]"

definition first_phrase :: string where
  "first_phrase = ''0 1 2 3 4 5 6 7 8 9 10 11''"

text \<open>
  The state of a search over this word list after its first pass, when the libraries
  are \<open>matching_libs\<close>, the database is \<open>hit_db\<close> and the clock reads \<open>T\<close>.
\<close>

definition hit_state :: SeedPermutationRecovery where
  "hit_state =
     \<lparr>database = hit_db, wordlist = numbered_wordlist,
      checkedCombinations = 1, sessionCombinations = 1,
      foundSeeds =
        [\<lparr>seedPhrase = first_phrase,
          foundAddresses =
            [Hole, Hole, Hole, Hole, Hole, Hole, Hole, Hole, Hole, Hole, Hole, Hole,
             Item \<lparr>index = 3, address = ''a3'', path = ''m/44'/0'/0'/0/3''\<rparr>],
          filename = ''found_seed_T.txt''\<rparr>],
      currentIndices = Some first_combination\<rparr>"

text \<open>
  Two sessions without hits: one that nothing interrupts, and one where a SIGINT is
  pending at the yield after attempt 1000.
\<close>

definition quiet_session :: "unit session" where
  "quiet_session =
     \<lparr>libs = rejecting_libs, clock = (\<lambda>n. []), timer_due = (\<lambda>n. False),
      sigint = (\<lambda>n. False), disk_ok = True\<rparr>"

definition sigint_at_1000 :: "unit session" where
  "sigint_at_1000 =
     \<lparr>libs = rejecting_libs, clock = (\<lambda>n. []), timer_due = (\<lambda>n. False),
      sigint = (\<lambda>n. n = 1000), disk_ok = True\<rparr>"


section \<open>Membership queries\<close>

text \<open>
  The loop invariant of the binary search: on a strictly ascending array, the search
  between \<open>left\<close> and \<open>right\<close> answers whether the target is at one of these positions.
\<close>

lemma binarySearch_loop_correct:
  "sorted_wrt (<) hs \<Longrightarrow> 0 \<le> left \<Longrightarrow> right < int (length hs) \<Longrightarrow>
   binarySearch_loop hs t left right
     = (\<exists>i. left \<le> i \<and> i \<le> right \<and> hs ! nat i = t)"
proof (induction hs t left right rule: binarySearch_loop.induct)
  case (1 hs t left right)
  show ?case
  proof (cases "left \<le> right")
    case False
    then show ?thesis
      by (subst binarySearch_loop.simps) auto
  next
    case True
    define mid where "mid = (left + right) div 2"
    have mid: "left \<le> mid" "mid \<le> right" "0 \<le> mid" "nat mid < length hs"
      using True "1.prems" by (auto simp: mid_def)
    have mono: "hs ! nat i < hs ! nat j" if "0 \<le> i" "i < j" "j < int (length hs)" for i j
      using that "1.prems"(1) by (auto simp: sorted_wrt_iff_nth_less)
    show ?thesis
    proof (cases "hs ! nat mid = t")
      case True
      with mid \<open>left \<le> right\<close> show ?thesis
        by (subst binarySearch_loop.simps) (auto simp: mid_def Let_def)
    next
      case neq: False
      show ?thesis
      proof (cases "hs ! nat mid < t")
        case lt: True
        have IH: "binarySearch_loop hs t (mid + 1) right
                    = (\<exists>i. mid + 1 \<le> i \<and> i \<le> right \<and> hs ! nat i = t)"
          using "1.IH"(1) [of mid "hs ! nat mid"] True mid neq lt "1.prems"
          by (simp add: mid_def)
        have none: "hs ! nat i \<noteq> t" if "left \<le> i" "i \<le> mid" for i
        proof (cases "i = mid")
          case True
          then show ?thesis using neq by simp
        next
          case False
          then have "hs ! nat i < hs ! nat mid"
            using that mid "1.prems" by (intro mono) auto
          with lt show ?thesis by auto
        qed
        have "binarySearch_loop hs t left right = binarySearch_loop hs t (mid + 1) right"
          using True mid neq lt by (subst binarySearch_loop.simps) (simp add: mid_def Let_def)
        also have "\<dots> = (\<exists>i. left \<le> i \<and> i \<le> right \<and> hs ! nat i = t)"
          unfolding IH using none mid
          by (metis add1_zle_eq linorder_not_le order_trans zle_add1_eq_le order_le_less)
        finally show ?thesis .
      next
        case ge: False
        have gt: "t < hs ! nat mid" using ge neq by auto
        have IH: "binarySearch_loop hs t left (mid - 1)
                    = (\<exists>i. left \<le> i \<and> i \<le> mid - 1 \<and> hs ! nat i = t)"
          using "1.IH"(2) [of mid "hs ! nat mid"] True mid neq ge "1.prems"
          by (simp add: mid_def)
        have none: "hs ! nat i \<noteq> t" if "mid \<le> i" "i \<le> right" for i
        proof (cases "i = mid")
          case True
          then show ?thesis using neq by simp
        next
          case False
          then have "hs ! nat mid < hs ! nat i"
            using that mid "1.prems" by (intro mono) auto
          with gt show ?thesis by auto
        qed
        have "binarySearch_loop hs t left right = binarySearch_loop hs t left (mid - 1)"
          using True mid neq ge by (subst binarySearch_loop.simps) (simp add: mid_def Let_def)
        also have "\<dots> = (\<exists>i. left \<le> i \<and> i \<le> right \<and> hs ! nat i = t)"
          unfolding IH using none mid
          by (smt (verit))
        finally show ?thesis .
      qed
    qed
  qed
qed

lemma binarySearch_loop_whole:
  assumes "sorted_wrt (<) hs"
  shows "binarySearch_loop hs t 0 (int (length hs) - 1) = (t \<in> set hs)"
proof -
  have "binarySearch_loop hs t 0 (int (length hs) - 1)
          = (\<exists>i. 0 \<le> i \<and> i \<le> int (length hs) - 1 \<and> hs ! nat i = t)"
    using assms by (intro binarySearch_loop_correct) auto
  also have "\<dots> = (\<exists>k<length hs. hs ! k = t)"
  proof
    assume "\<exists>i. 0 \<le> i \<and> i \<le> int (length hs) - 1 \<and> hs ! nat i = t"
    then obtain i where "0 \<le> i" "i \<le> int (length hs) - 1" "hs ! nat i = t" by blast
    then have "nat i < length hs \<and> hs ! nat i = t" by auto
    then show "\<exists>k<length hs. hs ! k = t" by blast
  next
    assume "\<exists>k<length hs. hs ! k = t"
    then obtain k where "k < length hs" "hs ! k = t" by blast
    then have "0 \<le> int k \<and> int k \<le> int (length hs) - 1 \<and> hs ! nat (int k) = t" by auto
    then show "\<exists>i. 0 \<le> i \<and> i \<le> int (length hs) - 1 \<and> hs ! nat i = t" by blast
  qed
  also have "\<dots> = (t \<in> set hs)"
    by (auto simp: in_set_conv_nth)
  finally show ?thesis .
qed

lemma hasAddress_total: "\<exists>b. hasAddress db a = Inr b"
  by (cases "hashes db") (auto simp: hasAddress_def binarySearch_def)

text \<open>
  Claim C3. On a strictly ascending array of 64-bit fingerprints, \<open>binarySearch\<close> returns
  true exactly when some element equals the fingerprint asked for, and so does
  \<open>hasAddress\<close> for the fingerprint of its address.
\<close>

theorem binarySearch_membership:
  assumes "hashes db = Some hs" and "sorted_wrt (<) hs"
  shows "binarySearch db f = Inr (f \<in> set hs)
         \<and> hasAddress db addr = Inr (xxhash64 addr \<in> set hs)"
proof -
  have b: "binarySearch db t = Inr (t \<in> set hs)" for t
    using assms by (simp add: binarySearch_def binarySearch_loop_whole)
  have "hasAddress db addr = Inr (xxhash64 addr \<in> set hs)"
  proof (cases "hs = []")
    case True
    with assms(1) show ?thesis by (simp add: hasAddress_def)
  next
    case False
    with assms(1) b show ?thesis by (simp add: hasAddress_def)
  qed
  with b show ?thesis by simp
qed

text \<open>The index \<open>[10, 20, 30, 40]\<close>: both ends are found; 5, 25 and 45 are not.\<close>

theorem binarySearch_membership_witness:
  "hashes four_hash_db = Some [10, 20, 30, 40] \<and> sorted_wrt (<) [10, 20, 30, 40 :: u64]
   \<and> binarySearch four_hash_db 10 = Inr True \<and> binarySearch four_hash_db 40 = Inr True
   \<and> binarySearch four_hash_db 5 = Inr False \<and> binarySearch four_hash_db 25 = Inr False
   \<and> binarySearch four_hash_db 45 = Inr False"
proof -
  have h: "hashes four_hash_db = Some [10, 20, 30, 40]"
    by (simp add: four_hash_db_def)
  have s: "sorted_wrt (<) [10, 20, 30, 40 :: u64]"
    by simp
  show ?thesis
    using h s
      binarySearch_membership [OF h s, of 10] binarySearch_membership [OF h s, of 40]
      binarySearch_membership [OF h s, of 5] binarySearch_membership [OF h s, of 25]
      binarySearch_membership [OF h s, of 45]
    by simp
qed

text \<open>
  Claim C10. \<open>hasAddress\<close> returns false when no database has been loaded or the hash
  array is empty, and it throws for no database object and no address.
\<close>

theorem hasAddress_unloaded:
  "(hashes db = None \<or> hashes db = Some [] \<longrightarrow> hasAddress db addr = Inr False)
   \<and> (\<exists>b. hasAddress db addr = Inr b)"
  using hasAddress_total [of db addr] by (auto simp: hasAddress_def)

theorem hasAddress_unloaded_witness:
  "hashes new_HashOnlyBTCDB = None
   \<and> hasAddress new_HashOnlyBTCDB ''1A1zP1eP5QGefi2DMPTfTL5SLmv7DivfNa'' = Inr False"
  using hasAddress_unloaded [of new_HashOnlyBTCDB "''1A1zP1eP5QGefi2DMPTfTL5SLmv7DivfNa''"]
  by (simp add: new_HashOnlyBTCDB_def)


section \<open>Loading a database file\<close>

lemma verifyOrdering_loop_iff:
  "1 \<le> i \<Longrightarrow>
   verifyOrdering_loop hs i
     = (\<forall>j. i \<le> j \<and> j < min 1000 (length hs) \<longrightarrow> hs ! (j - 1) < hs ! j)"
proof (induction hs i rule: verifyOrdering_loop.induct)
  case (1 hs i)
  show ?case
  proof (cases "i < min 1000 (length hs)")
    case False
    then show ?thesis by (subst verifyOrdering_loop.simps) auto
  next
    case True
    show ?thesis
    proof (cases "hs ! i \<le> hs ! (i - 1)")
      case bad: True
      have "verifyOrdering_loop hs i = False"
        using True bad by (subst verifyOrdering_loop.simps) simp
      moreover have "\<not> (\<forall>j. i \<le> j \<and> j < min 1000 (length hs) \<longrightarrow> hs ! (j - 1) < hs ! j)"
        using True bad by (auto intro!: exI [of _ i] simp: not_less)
      ultimately show ?thesis by simp
    next
      case good: False
      have "verifyOrdering_loop hs i = verifyOrdering_loop hs (i + 1)"
        using True good by (subst verifyOrdering_loop.simps) simp
      also have "\<dots> = (\<forall>j. i + 1 \<le> j \<and> j < min 1000 (length hs) \<longrightarrow> hs ! (j - 1) < hs ! j)"
        using "1.IH" [OF True good] "1.prems" by simp
      also have "\<dots> = (\<forall>j. i \<le> j \<and> j < min 1000 (length hs) \<longrightarrow> hs ! (j - 1) < hs ! j)"
      proof -
        have "i \<le> j \<longleftrightarrow> j = i \<or> i + 1 \<le> j" for j by auto
        then show ?thesis using good by (auto simp: not_le)
      qed
      finally show ?thesis .
    qed
  qed
qed

text \<open>What lies after the first 1000 elements has no influence on the check.\<close>

lemma verifyOrdering_loop_take:
  "verifyOrdering_loop hs 1 = verifyOrdering_loop (take 1000 hs) 1"
proof -
  have "min 1000 (length (take 1000 hs)) = min 1000 (length hs)"
    by simp
  moreover have "take 1000 hs ! (j - 1) = hs ! (j - 1) \<and> take 1000 hs ! j = hs ! j"
    if "j < min 1000 (length hs)" for j
  proof -
    have "j - 1 < 1000" and "j < 1000" using that by auto
    then show ?thesis by (simp only: nth_take)
  qed
  ultimately show ?thesis
    by (auto simp: verifyOrdering_loop_iff simp del: length_take)
qed

lemma read_hashes_all:
  "24 + n * 8 \<le> length buffer \<Longrightarrow>
   read_hashes buffer n i acc
     = (None, acc @ map (\<lambda>k. le64 (take 8 (drop (24 + k * 8) buffer))) [i..<n])"
proof (induction buffer n i acc rule: read_hashes.induct)
  case (1 buffer n i acc)
  show ?case
  proof (cases "i < n")
    case False
    then show ?thesis by (subst read_hashes.simps) simp
  next
    case True
    then have rd: "readBigUInt64LE buffer (24 + i * 8)
                     = Inr (le64 (take 8 (drop (24 + i * 8) buffer)))"
      using "1.prems" by (simp add: readBigUInt64LE_def)
    have "read_hashes buffer n i acc
            = read_hashes buffer n (i + 1) (acc @ [le64 (take 8 (drop (24 + i * 8) buffer))])"
      using True rd by (subst read_hashes.simps) simp
    also have "\<dots> = (None, (acc @ [le64 (take 8 (drop (24 + i * 8) buffer))])
                        @ map (\<lambda>k. le64 (take 8 (drop (24 + k * 8) buffer))) [i + 1..<n])"
      using "1.IH" [OF True rd] "1.prems" by simp
    finally show ?thesis
      using True by (simp add: upt_conv_Cons)
  qed
qed

lemma loadDatabase_wellformed:
  assumes "24 \<le> length buffer"
    and "ascii_slice buffer 0 8 = map of_char ''BTCHASH1''"
    and "readBigUInt64LE buffer 8 = Inr c"
    and "readBigUInt64LE buffer 16 = Inr 8"
    and "unat c * 8 \<le> length buffer - 24"
    and "1 \<le> unat c"
  shows "loadDatabase db buffer =
           (True,
            (if verifyOrdering_loop (data_hashes buffer (unat c)) 1 then [] else [WarnNotSorted]),
            db\<lparr>hashCount := unat c, hashes := Some (data_hashes buffer (unat c))\<rparr>)"
proof -
  have "24 + unat c * 8 \<le> length buffer" using assms by simp
  then have rh: "read_hashes buffer (unat c) 0 [] = (None, data_hashes buffer (unat c))"
    by (simp add: read_hashes_all data_hashes_def)
  have ne: "data_hashes buffer (unat c) \<noteq> []"
    using assms(6) by (simp add: data_hashes_def)
  show ?thesis
    using assms(1-5) rh ne
    by (simp add: loadDatabase_def Let_def verifyOrdering_def del: of_char_eq_iff)
qed

text \<open>
  The three rejections: the decoded magic differs, the hash size is not 8, or the data
  after the header is shorter than the count requires. The call returns false and
  leaves \<open>hashes\<close> as it was.
\<close>

lemma loadDatabase_rejects:
  assumes "ascii_slice buffer 0 8 \<noteq> map of_char ''BTCHASH1''
           \<or> readBigUInt64LE buffer 16 \<noteq> Inr 8
           \<or> (\<exists>c. readBigUInt64LE buffer 8 = Inr c \<and> length buffer - 24 < unat c * 8)"
  shows "fst (loadDatabase db buffer) = False
         \<and> hashes (snd (snd (loadDatabase db buffer))) = hashes db"
  using assms
  by (auto simp: loadDatabase_def Let_def split: sum.splits prod.splits option.splits)

text \<open>
  Claim C9. For a file with a valid header, enough data and at least one hash,
  \<open>loadDatabase\<close> returns true and installs the whole array whether or not the array is
  sorted. The warning is printed exactly when two neighbours among the first 1000
  elements are out of order; elements from position 1000 on do not matter.
\<close>

theorem loadDatabase_ordering_sample:
  assumes "24 \<le> length buffer"
    and "ascii_slice buffer 0 8 = map of_char ''BTCHASH1''"
    and "readBigUInt64LE buffer 8 = Inr c"
    and "readBigUInt64LE buffer 16 = Inr 8"
    and "unat c * 8 \<le> length buffer - 24"
    and "1 \<le> unat c"
  shows "loadDatabase db buffer =
           (True,
            (if \<forall>j. 1 \<le> j \<and> j < min 1000 (unat c)
                   \<longrightarrow> data_hashes buffer (unat c) ! (j - 1) < data_hashes buffer (unat c) ! j
             then [] else [WarnNotSorted]),
            db\<lparr>hashCount := unat c, hashes := Some (data_hashes buffer (unat c))\<rparr>)"
proof -
  have "verifyOrdering_loop (data_hashes buffer (unat c)) 1
          = (\<forall>j. 1 \<le> j \<and> j < min 1000 (unat c)
                \<longrightarrow> data_hashes buffer (unat c) ! (j - 1) < data_hashes buffer (unat c) ! j)"
    by (subst verifyOrdering_loop_iff) (simp_all add: data_hashes_def)
  with loadDatabase_wellformed [OF assms, of db] show ?thesis
    by simp
qed


theorem loadDatabase_ordering_sample_witness:
  "24 \<le> length unsorted_pair_file
   \<and> ascii_slice unsorted_pair_file 0 8 = map of_char ''BTCHASH1''
   \<and> readBigUInt64LE unsorted_pair_file 8 = Inr 2
   \<and> readBigUInt64LE unsorted_pair_file 16 = Inr 8
   \<and> unat (2 :: u64) * 8 \<le> length unsorted_pair_file - 24
   \<and> 1 \<le> unat (2 :: u64)
   \<and> loadDatabase new_HashOnlyBTCDB unsorted_pair_file
       = (True, [WarnNotSorted], \<lparr>hashes = Some [2, 1], hashCount = 2\<rparr>)"
proof -
  have a: "24 \<le> length unsorted_pair_file"
    by (simp add: unsorted_pair_file_def)
  have b: "ascii_slice unsorted_pair_file 0 8 = map of_char ''BTCHASH1''"
    by (simp add: unsorted_pair_file_def ascii_slice_def)
  have c: "readBigUInt64LE unsorted_pair_file 8 = Inr 2"
    by (simp add: unsorted_pair_file_def readBigUInt64LE_def le64_def)
  have d: "readBigUInt64LE unsorted_pair_file 16 = Inr 8"
    by (simp add: unsorted_pair_file_def readBigUInt64LE_def le64_def)
  have e: "unat (2 :: u64) * 8 \<le> length unsorted_pair_file - 24"
    by (simp add: unsorted_pair_file_def)
  have f: "1 \<le> unat (2 :: u64)"
    by simp
  have dh: "data_hashes unsorted_pair_file 2 = [2, 1]"
    by (simp add: data_hashes_def unsorted_pair_file_def le64_def upt_rec)
  have bad: "\<not> (\<forall>j. 1 \<le> j \<and> j < min 1000 (2::nat) \<longrightarrow> [2, 1 :: u64] ! (j - 1) < [2, 1] ! j)"
    by (auto intro!: exI [of _ 1])
  from loadDatabase_ordering_sample [OF a b c d e f, of new_HashOnlyBTCDB]
  have "loadDatabase new_HashOnlyBTCDB unsorted_pair_file
       = (True, [WarnNotSorted], \<lparr>hashes = Some [2, 1], hashCount = 2\<rparr>)"
    unfolding dh using bad by (simp add: dh new_HashOnlyBTCDB_def)
  with a b c d e f show ?thesis by blast
qed

text \<open>
  Claim C4. The magic check compares the decoded string, in which the highest bit of
  every byte is cleared, so a file whose first byte is \<open>0xC2\<close> instead of \<open>0x42\<close> has a
  wrong magic tag and is loaded all the same: \<open>loadDatabase\<close> returns true, prints
  nothing, and the index answers queries. (A wrong hash size and missing data bytes are
  rejected, as is a magic that differs in the lower seven bits: \<open>loadDatabase_rejects\<close>.)
\<close>

theorem loadDatabase_accepts_high_bit_magic:
  "take 8 high_bit_magic_file \<noteq> map of_char ''BTCHASH1''
   \<and> loadDatabase new_HashOnlyBTCDB high_bit_magic_file
       = (True, [], \<lparr>hashes = Some [5], hashCount = 1\<rparr>)
   \<and> hasAddress (snd (snd (loadDatabase new_HashOnlyBTCDB high_bit_magic_file))) addr
       = Inr (xxhash64 addr = 5)"
  by (simp add: high_bit_magic_file_def loadDatabase_def ascii_slice_def readBigUInt64LE_def
      le64_def read_hashes.simps verifyOrdering_def verifyOrdering_loop.simps
      new_HashOnlyBTCDB_def Let_def hasAddress_def binarySearch_def binarySearch_loop.simps)


section \<open>The successor of a combination\<close>

lemma valid_state_iff:
  "valid_state s \<longleftrightarrow>
     length s = 12 \<and> sorted_wrt (<) s \<and> (\<forall>i<12. s ! i \<le> 2036 + i)"
  by (auto simp: valid_state_def list_all_iff)

lemma scan_back_None:
  "scan_back s n = None \<Longrightarrow> j < n \<Longrightarrow> j < length s \<and> s ! j = 2036 + j"
proof (induction n)
  case 0
  then show ?case by simp
next
  case (Suc n)
  then show ?case
    by (cases "j = n") (auto split: if_splits)
qed

lemma scan_back_Some:
  "scan_back s n = Some i \<Longrightarrow>
   i < n \<and> \<not> (i < length s \<and> s ! i = 2036 + i)
   \<and> (\<forall>j. i < j \<and> j < n \<longrightarrow> j < length s \<and> s ! j = 2036 + j)"
proof (induction n)
  case 0
  then show ?case by simp
next
  case (Suc n)
  show ?case
  proof (cases "n < length s \<and> s ! n = 2036 + n")
    case True
    with Suc.prems have "scan_back s n = Some i" by simp
    from Suc.IH [OF this] True show ?thesis
      by (auto simp: less_Suc_eq)
  next
    case False
    with Suc.prems have "i = n" by auto
    with False show ?thesis by auto
  qed
qed

lemma length_refill [simp]: "length (refill ind i val j) = length ind"
  by (induction j arbitrary: ind) auto

lemma refill_nth:
  "i + j < length ind \<Longrightarrow>
   refill ind i val j ! m = (if i < m \<and> m \<le> i + j then val + (m - i) else ind ! m)"
proof (induction j arbitrary: ind)
  case 0
  then show ?case by simp
next
  case (Suc j)
  have "refill ind i val (Suc j) ! m = refill (ind[i + Suc j := val + Suc j]) i val j ! m"
    by simp
  also have "\<dots> = (if i < m \<and> m \<le> i + j then val + (m - i)
                    else (ind[i + Suc j := val + Suc j]) ! m)"
    using Suc.prems by (subst Suc.IH) auto
  also have "\<dots> = (if i < m \<and> m \<le> i + Suc j then val + (m - i) else ind ! m)"
    using Suc.prems by (cases "m = i + Suc j") auto
  finally show ?case .
qed

text \<open>For lists of equal length, \<open>lex_less\<close> is decided at the first position that differs.\<close>

lemma lex_less_iff_nth:
  "length s = length t \<Longrightarrow>
   lex_less s t \<longleftrightarrow> (\<exists>p<length s. (\<forall>j<p. s ! j = t ! j) \<and> s ! p < t ! p)"
proof (induction s t rule: list_induct2)
  case Nil
  then show ?case by simp
next
  case (Cons x xs y ys)
  show ?case
  proof
    assume "lex_less (x # xs) (y # ys)"
    then consider "x < y" | "x = y" "lex_less xs ys" by auto
    then show "\<exists>p<length (x # xs). (\<forall>j<p. (x # xs) ! j = (y # ys) ! j) \<and> (x # xs) ! p < (y # ys) ! p"
    proof cases
      case 1
      then show ?thesis by (intro exI [of _ 0]) simp
    next
      case 2
      then obtain p where p: "p < length xs" "\<forall>j<p. xs ! j = ys ! j" "xs ! p < ys ! p"
        using Cons.IH by auto
      show ?thesis
      proof (intro exI [of _ "Suc p"] conjI allI impI)
        show "Suc p < length (x # xs)" using p by simp
        show "(x # xs) ! Suc p < (y # ys) ! Suc p" using p by simp
        fix j assume "j < Suc p"
        then show "(x # xs) ! j = (y # ys) ! j"
          using p(2) 2(1) by (cases j) auto
      qed
    qed
  next
    assume "\<exists>p<length (x # xs). (\<forall>j<p. (x # xs) ! j = (y # ys) ! j) \<and> (x # xs) ! p < (y # ys) ! p"
    then obtain p where p: "p < length (x # xs)" "\<forall>j<p. (x # xs) ! j = (y # ys) ! j"
      "(x # xs) ! p < (y # ys) ! p" by auto
    show "lex_less (x # xs) (y # ys)"
    proof (cases p)
      case 0
      with p show ?thesis by simp
    next
      case (Suc q)
      have "x = y" using p(2) Suc by (auto dest: spec [of _ 0])
      moreover have "q < length xs" using p(1) Suc by simp
      moreover have "\<forall>j<q. xs ! j = ys ! j"
        using p(2) Suc by (auto dest: spec [of _ "Suc j" for j])
      moreover have "xs ! q < ys ! q" using p(3) Suc by simp
      ultimately show ?thesis using Cons.IH by auto
    qed
  qed
qed

text \<open>In a strictly increasing list of numbers, values grow at least as fast as positions.\<close>

lemma strict_gap:
  fixes u :: "nat list"
  assumes "sorted_wrt (<) u" "b < length u"
  shows "a \<le> b \<Longrightarrow> u ! a + (b - a) \<le> u ! b"
  using assms(2)
proof (induction b)
  case 0
  then show ?case by simp
next
  case (Suc b)
  show ?case
  proof (cases "a = Suc b")
    case True
    then show ?thesis by simp
  next
    case False
    then have "a \<le> b" using Suc.prems by simp
    moreover have "u ! b < u ! Suc b"
      using assms(1) Suc.prems by (simp add: sorted_wrt_iff_nth_less)
    ultimately show ?thesis using Suc.IH Suc.prems by simp
  qed
qed

lemma valid_stateI:
  assumes "length s = 12" "sorted_wrt (<) s" "s ! 11 \<le> 2047"
  shows "valid_state s"
proof -
  have "s ! i \<le> 2036 + i" if "i < 12" for i
  proof -
    have "s ! i + (11 - i) \<le> s ! 11"
      using that assms(1) by (intro strict_gap [OF assms(2)]) auto
    with assms(3) that show ?thesis by simp
  qed
  with assms show ?thesis by (simp add: valid_state_iff)
qed

text \<open>Unfolding the two loops of \<open>nextCombination\<close> at a numeral.\<close>

lemma scan_back_numeral:
  "scan_back s (numeral k) =
     (if pred_numeral k < length s \<and> s ! pred_numeral k = 2036 + pred_numeral k
      then scan_back s (pred_numeral k) else Some (pred_numeral k))"
  by (simp add: numeral_eq_Suc)

lemma refill_numeral:
  "refill ind i val (numeral k) =
     refill (ind[i + numeral k := val + numeral k]) i val (pred_numeral k)"
  by (simp add: numeral_eq_Suc)


lemma nextCombination_exhausted:
  assumes "valid_state s" "\<forall>i<12. s ! i = 2036 + i"
  shows "nextCombination s = (False, s)"
proof -
  have "scan_back s 12 = None"
  proof (cases "scan_back s 12")
    case None
    then show ?thesis .
  next
    case (Some i)
    from scan_back_Some [OF this] assms show ?thesis
      by (auto simp: valid_state_iff)
  qed
  then show ?thesis by (simp add: nextCombination_def)
qed

lemma nextCombination_step:
  assumes v: "valid_state s" and ne: "\<not> (\<forall>i<12. s ! i = 2036 + i)"
  obtains i t where
    "i < 12" "s ! i < 2036 + i" "\<forall>j. i < j \<and> j < 12 \<longrightarrow> s ! j = 2036 + j"
    "nextCombination s = (True, t)" "length t = 12"
    "\<forall>j<i. t ! j = s ! j" "t ! i = s ! i + 1"
    "\<forall>j. i < j \<and> j < 12 \<longrightarrow> t ! j = t ! i + (j - i)"
proof -
  have len: "length s = 12" and bound: "\<And>i. i < 12 \<Longrightarrow> s ! i \<le> 2036 + i"
    using v by (auto simp: valid_state_iff)
  obtain i where sb: "scan_back s 12 = Some i"
  proof (cases "scan_back s 12")
    case None
    from scan_back_None [OF this] ne show ?thesis by auto
  next
    case (Some i)
    then show ?thesis by (rule that)
  qed
  from scan_back_Some [OF sb] len
  have i: "i < 12" "s ! i \<noteq> 2036 + i" "\<forall>j. i < j \<and> j < 12 \<longrightarrow> s ! j = 2036 + j"
    by auto
  have lt: "s ! i < 2036 + i" using bound [OF i(1)] i(2) by simp
  define t where "t = refill (s[i := s ! i + 1]) i (s ! i + 1) (11 - i)"
  have nc: "nextCombination s = (True, t)"
    using sb by (simp add: nextCombination_def t_def Let_def)
  have lt12: "i + (11 - i) < length (s[i := s ! i + 1])" using i(1) len by simp
  have nth: "t ! m = (if i < m \<and> m \<le> 11 then s ! i + 1 + (m - i) else (s[i := s ! i + 1]) ! m)" for m
    unfolding t_def using refill_nth [OF lt12, of "s ! i + 1" m] i(1) by simp
  show ?thesis
  proof (rule that [of i t])
    show "i < 12" by fact
    show "s ! i < 2036 + i" by fact
    show "\<forall>j. i < j \<and> j < 12 \<longrightarrow> s ! j = 2036 + j" by fact
    show "nextCombination s = (True, t)" by fact
    show "length t = 12" by (simp add: t_def len)
    show "\<forall>j<i. t ! j = s ! j" by (simp add: nth)
    show ti: "t ! i = s ! i + 1" using i(1) len by (simp add: nth)
    show "\<forall>j. i < j \<and> j < 12 \<longrightarrow> t ! j = t ! i + (j - i)"
      unfolding ti by (simp add: nth)
  qed
qed

lemma successor_valid:
  assumes v: "valid_state s" and i: "i < 12" "s ! i < 2036 + i"
    and len: "length t = 12"
    and pre: "\<forall>j<i. t ! j = s ! j" and at: "t ! i = s ! i + 1"
    and post: "\<forall>j. i < j \<and> j < 12 \<longrightarrow> t ! j = t ! i + (j - i)"
  shows "valid_state t"
proof -
  have slen: "length s = 12" and sbound: "\<And>i. i < 12 \<Longrightarrow> s ! i \<le> 2036 + i"
    and smono: "\<And>a b. a < b \<Longrightarrow> b < 12 \<Longrightarrow> s ! a < s ! b"
    using v by (auto simp: valid_state_iff sorted_wrt_iff_nth_less)
  have val: "t ! m = (if m < i then s ! m else s ! i + 1 + (m - i))" if "m < 12" for m
  proof (cases "m < i")
    case True
    with pre show ?thesis by simp
  next
    case False
    show ?thesis
    proof (cases "m = i")
      case True
      with at show ?thesis by simp
    next
      case neq: False
      with False have "i < m" by simp
      with post that have "t ! m = t ! i + (m - i)" by blast
      with at False show ?thesis by simp
    qed
  qed
  have mono: "t ! a < t ! b" if "a < b" "b < 12" for a b
  proof -
    have a12: "a < 12" using that by simp
    consider "b < i" | "a < i" "i \<le> b" | "i \<le> a" by linarith
    then show ?thesis
    proof cases
      case 1
      then show ?thesis using that smono [of a b] by (simp add: val a12)
    next
      case 2
      have "s ! a < s ! i" using 2 i(1) by (intro smono) auto
      then show ?thesis using 2 that by (simp add: val a12)
    next
      case 3
      then show ?thesis using that by (simp add: val a12)
    qed
  qed
  have bound: "t ! m \<le> 2036 + m" if "m < 12" for m
  proof (cases "m < i")
    case True
    with that sbound [of m] show ?thesis by (simp add: val)
  next
    case False
    with that i(2) show ?thesis by (simp add: val)
  qed
  have "sorted_wrt (<) t"
    unfolding sorted_wrt_iff_nth_less len using mono by blast
  moreover have "\<forall>m<12. t ! m \<le> 2036 + m"
    using bound by blast
  ultimately show ?thesis
    unfolding valid_state_iff using len by blast
qed

lemma successor_immediate:
  assumes v: "valid_state s" and i: "i < 12" "s ! i < 2036 + i"
    and maxed: "\<forall>j. i < j \<and> j < 12 \<longrightarrow> s ! j = 2036 + j"
    and len: "length t = 12"
    and pre: "\<forall>j<i. t ! j = s ! j" and at: "t ! i = s ! i + 1"
    and post: "\<forall>j. i < j \<and> j < 12 \<longrightarrow> t ! j = t ! i + (j - i)"
    and u: "valid_state u" and su: "lex_less s u"
  shows "\<not> lex_less u t"
proof
  assume ut: "lex_less u t"
  have slen: "length s = 12" using v by (simp add: valid_state_iff)
  have ulen: "length u = 12" and ubound: "\<And>i. i < 12 \<Longrightarrow> u ! i \<le> 2036 + i"
    and usorted: "sorted_wrt (<) u"
    using u by (auto simp: valid_state_iff)
  obtain p where p: "p < 12" "\<forall>j<p. s ! j = u ! j" "s ! p < u ! p"
    using su slen ulen by (auto simp: lex_less_iff_nth)
  obtain q where q: "q < 12" "\<forall>j<q. u ! j = t ! j" "u ! q < t ! q"
    using ut ulen len by (auto simp: lex_less_iff_nth)
  consider "p < i" | "p = i" | "i < p" by linarith
  then show False
  proof cases
    case 1
    then have tp: "t ! p = s ! p" using pre by simp
    consider "q < p" | "q = p" | "p < q" by linarith
    then show False
    proof cases
      case 1
      then have "u ! q = s ! q" using p(2) by simp
      moreover have "t ! q = s ! q" using 1 \<open>p < i\<close> pre by simp
      ultimately show False using q(3) by simp
    next
      case 2
      then show False using q(3) p(3) tp by simp
    next
      case 3
      then have "u ! p = t ! p" using q(2) by simp
      then show False using p(3) tp by simp
    qed
  next
    case 2
    then have ui: "t ! i \<le> u ! i" using p(3) at by simp
    consider "q < i" | "q = i" | "i < q" by linarith
    then show False
    proof cases
      case 1
      then have "u ! q = s ! q" using p(2) 2 by simp
      moreover have "t ! q = s ! q" using 1 pre by simp
      ultimately show False using q(3) by simp
    next
      case 2
      then show False using q(3) ui by simp
    next
      case 3
      then have "u ! i = t ! i" using q(2) by simp
      moreover have "u ! i + (q - i) \<le> u ! q"
        using 3 q(1) ulen by (intro strict_gap [OF usorted]) auto
      moreover have "t ! q = t ! i + (q - i)" using post 3 q(1) by simp
      ultimately show False using q(3) by simp
    qed
  next
    case 3
    then have "s ! p = 2036 + p" using maxed p(1) by simp
    then show False using p(3) ubound [OF p(1)] by simp
  qed
qed

text \<open>
  Claim C2. On a valid state, \<open>nextCombination\<close> returns false and leaves the array as it
  is when every position holds its maximum \<open>2036 + i\<close>. Otherwise it returns true, and
  with \<open>i\<close> the rightmost position below its maximum the new array keeps the positions
  before \<open>i\<close>, has \<open>idx[i] + 1\<close> at \<open>i\<close> and consecutive values after it; it is a valid
  state, greater than the old one in the lexicographic order, and no valid state lies
  strictly between the two.
\<close>

theorem nextCombination_successor:
  assumes "valid_state s"
  shows "if \<forall>i<12. s ! i = 2036 + i
         then nextCombination s = (False, s)
         else \<exists>i t. i < 12 \<and> s ! i < 2036 + i
                \<and> (\<forall>j. i < j \<and> j < 12 \<longrightarrow> s ! j = 2036 + j)
                \<and> nextCombination s = (True, t)
                \<and> (\<forall>j<i. t ! j = s ! j) \<and> t ! i = s ! i + 1
                \<and> (\<forall>j. i < j \<and> j < 12 \<longrightarrow> t ! j = t ! i + (j - i))
                \<and> valid_state t \<and> lex_less s t
                \<and> (\<forall>u. valid_state u \<and> lex_less s u \<longrightarrow> \<not> lex_less u t)"
proof (cases "\<forall>i<12. s ! i = 2036 + i")
  case True
  show ?thesis
    by (subst if_P [OF True]) (rule nextCombination_exhausted [OF assms True])
next
  case False
  show ?thesis
  proof (subst if_not_P [OF False], rule nextCombination_step [OF assms False])
    fix i t
    assume it: "i < 12" "s ! i < 2036 + i" "\<forall>j. i < j \<and> j < 12 \<longrightarrow> s ! j = 2036 + j"
      "nextCombination s = (True, t)" "length t = 12"
      "\<forall>j<i. t ! j = s ! j" "t ! i = s ! i + 1"
      "\<forall>j. i < j \<and> j < 12 \<longrightarrow> t ! j = t ! i + (j - i)"
    have vt: "valid_state t"
      by (rule successor_valid [OF assms it(1,2,5,6,7,8)])
    have slen: "length s = 12" using assms by (simp add: valid_state_iff)
    have "i < length s \<and> (\<forall>j<i. s ! j = t ! j) \<and> s ! i < t ! i"
      using it(1,6,7) slen by simp
    then have less: "lex_less s t"
      unfolding lex_less_iff_nth [of s t, OF trans [OF slen it(5) [symmetric]]] by (rule exI)
    have imm: "\<forall>u. valid_state u \<and> lex_less s u \<longrightarrow> \<not> lex_less u t"
    proof (intro allI impI, elim conjE)
      fix u assume "valid_state u" "lex_less s u"
      then show "\<not> lex_less u t"
        by (rule successor_immediate [OF assms it(1,2,3,5,6,7,8)])
    qed
    show "\<exists>i t. i < 12 \<and> s ! i < 2036 + i
                \<and> (\<forall>j. i < j \<and> j < 12 \<longrightarrow> s ! j = 2036 + j)
                \<and> nextCombination s = (True, t)
                \<and> (\<forall>j<i. t ! j = s ! j) \<and> t ! i = s ! i + 1
                \<and> (\<forall>j. i < j \<and> j < 12 \<longrightarrow> t ! j = t ! i + (j - i))
                \<and> valid_state t \<and> lex_less s t
                \<and> (\<forall>u. valid_state u \<and> lex_less s u \<longrightarrow> \<not> lex_less u t)"
      by (intro exI [of _ i] exI [of _ t] conjI it(1,2,3,4,6,7,8) vt less imm)
  qed
qed

text \<open>
  The state \<open>[0, ..., 9, 10, 2047]\<close>: position 10 is the rightmost below its maximum, and
  the successor is \<open>[0, ..., 9, 11, 12]\<close>.
\<close>

theorem nextCombination_successor_witness:
  "valid_state [0,1,2,3,4,5,6,7,8,9,10,2047]
   \<and> nextCombination [0,1,2,3,4,5,6,7,8,9,10,2047] = (True, [0,1,2,3,4,5,6,7,8,9,11,12])
   \<and> valid_state [0,1,2,3,4,5,6,7,8,9,11,12]
   \<and> lex_less [0,1,2,3,4,5,6,7,8,9,10,2047] [0,1,2,3,4,5,6,7,8,9,11,12]
   \<and> \<not> (\<exists>u. valid_state u \<and> lex_less [0,1,2,3,4,5,6,7,8,9,10,2047] u
             \<and> lex_less u [0,1,2,3,4,5,6,7,8,9,11,12])"
proof -
  have v: "valid_state [0,1,2,3,4,5,6,7,8,9,10,2047]"
    by (rule valid_stateI) simp_all
  have nc: "nextCombination [0,1,2,3,4,5,6,7,8,9,10,2047] = (True, [0,1,2,3,4,5,6,7,8,9,11,12])"
    by (simp add: nextCombination_def scan_back_numeral refill_numeral Let_def)
  have ne: "\<not> (\<forall>i<12. [0,1,2,3,4,5,6,7,8,9,10,2047] ! i = 2036 + i)"
    by (auto intro!: exI [of _ 0])
  from nextCombination_successor [OF v] ne nc
  have "valid_state [0,1,2,3,4,5,6,7,8,9,11,12]
    \<and> lex_less [0,1,2,3,4,5,6,7,8,9,10,2047] [0,1,2,3,4,5,6,7,8,9,11,12]
    \<and> (\<forall>u. valid_state u \<and> lex_less [0,1,2,3,4,5,6,7,8,9,10,2047] u
          \<longrightarrow> \<not> lex_less u [0,1,2,3,4,5,6,7,8,9,11,12])"
    by (simp only: if_False prod.inject simp_thms) blast
  with v nc show ?thesis by blast
qed

section \<open>Testing one combination\<close>

text \<open>
  \<open>hasAddress\<close> never throws, so the loop of \<open>checkSeedPhrase\<close> runs over all addresses:
  it appends one entry for each position whose address is in the database, in
  ascending order of position, to the array it started with.
\<close>

lemma checkSeedPhrase_loop_result:
  "checkSeedPhrase_loop db addresses i acc found
     = Inr (acc @ map (found_entry addresses) (matching_positions db addresses i),
            found \<or> matching_positions db addresses i \<noteq> [])"
proof (induction db addresses i acc found rule: checkSeedPhrase_loop.induct)
  case (1 db addresses i acc found)
  show ?case
  proof (cases "i < length addresses")
    case False
    then show ?thesis
      by (subst checkSeedPhrase_loop.simps) (simp add: matching_positions_def)
  next
    case True
    obtain hit where hit: "hasAddress db (addresses ! i) = Inr hit"
      using hasAddress_total by blast
    have upt: "[i..<length addresses] = i # [i + 1..<length addresses]"
      using True by (simp add: upt_conv_Cons)
    show ?thesis
    proof (cases hit)
      case True
      have mp: "matching_positions db addresses i = i # matching_positions db addresses (i + 1)"
        using hit True by (simp add: matching_positions_def upt)
      show ?thesis
        using "1.IH"(1) [OF \<open>i < length addresses\<close> hit True] hit True \<open>i < length addresses\<close>
        by (subst checkSeedPhrase_loop.simps) (simp add: mp found_entry_def)
    next
      case False
      have mp: "matching_positions db addresses i = matching_positions db addresses (i + 1)"
        using hit False by (simp add: matching_positions_def upt)
      show ?thesis
        using "1.IH"(2) [OF \<open>i < length addresses\<close> hit False] hit False \<open>i < length addresses\<close>
        by (subst checkSeedPhrase_loop.simps) (simp add: mp)
    qed
  qed
qed

lemma checkSeedPhrase_result:
  "checkSeedPhrase L db phrase
     = Inr (replicate 12 Hole
              @ map (found_entry (generateAddresses L phrase 20))
                  (matching_positions db (generateAddresses L phrase 20) 0),
            matching_positions db (generateAddresses L phrase 20) 0 \<noteq> [])"
  by (simp add: checkSeedPhrase_def checkSeedPhrase_loop_result)

lemma checkSeedPhrase_no_addresses:
  "generateAddresses L phrase 20 = [] \<Longrightarrow> checkSeedPhrase L db phrase = Inr (replicate 12 Hole, False)"
  by (simp add: checkSeedPhrase_result matching_positions_def)

lemma iteration_no_addresses:
  "generateAddresses L (generateCombination (wordlist st) indices) 20 = [] \<Longrightarrow>
   iteration L now st indices = Inr (count_attempt st indices)"
  by (simp add: iteration_def Let_def count_attempt_def checkSeedPhrase_no_addresses)

lemma generateAddresses_rejected:
  "validateMnemonic L phrase = Inr False \<Longrightarrow> generateAddresses L phrase count = []"
  by (simp add: generateAddresses_def generateAddresses_try_def)

lemma generateAddresses_caught:
  "generateAddresses_try L phrase count = Inl e \<Longrightarrow> generateAddresses L phrase count = []"
  by (simp add: generateAddresses_def)


lemma iteration_total:

  "\<exists>st1. iteration L now st indices = Inr st1
         \<and> currentIndices st1 = Some indices
         \<and> checkedCombinations st1 = js_increment (checkedCombinations st)
         \<and> sessionCombinations st1 = js_increment (sessionCombinations st)"
  by (simp add: iteration_def Let_def checkSeedPhrase_result count_attempt_def)

lemma nextCombination_False:
  "nextCombination indices = (False, indices1) \<Longrightarrow> indices1 = indices"
  by (auto simp: nextCombination_def Let_def split: option.splits)

text \<open>The stand-in libraries and the database with one hash, evaluated.\<close>

lemma first_phrase_eq:
  "generateCombination numbered_wordlist first_combination = first_phrase"
  by (simp add: generateCombination_def word_at_def numbered_wordlist_def first_phrase_def
      first_combination_def
      upt_rec [of 0 12] upt_rec [of "Suc n" 12 for n] upt_rec [of "numeral n" 12 for n] show_nat.simps)

lemma generateAddresses_matching:
  "generateAddresses matching_libs phrase 20 =
     [''a0'', ''a1'', ''a2'', ''a3'', ''a4'', ''a5'', ''a6'', ''a7'', ''a8'', ''a9'', ''a10'',
      ''a11'', ''a12'', ''a13'', ''a14'', ''a15'', ''a16'', ''a17'', ''a18'', ''a19'']"
  by (simp add: generateAddresses_def generateAddresses_try_def matching_libs_def
      derive_loop.simps show_nat.simps)

lemma hasAddress_hit_db: "hasAddress hit_db a = Inr (xxhash64 a = xxhash64 ''a3'')"
  by (simp add: hasAddress_def binarySearch_def binarySearch_loop.simps [of _ _ 0 0]
     binarySearch_loop.simps [of _ _ 1 0] binarySearch_loop.simps [of _ _ 0 "-1"] hit_db_def Let_def)

lemma xxhash64_values:
  "xxhash64 ''a0'' = 4604104774860055150" "xxhash64 ''a1'' = 10785195184739091054"
  "xxhash64 ''a2'' = 10688668028811534958" "xxhash64 ''a3'' = 16869758438690570862"
  "xxhash64 ''a4'' = 10881722340666647150" "xxhash64 ''a5'' = 17062812750545683054"
  "xxhash64 ''a6'' = 16966285594618126958" "xxhash64 ''a7'' = 4700631930787611246"
  "xxhash64 ''a8'' = 10495613716956422766" "xxhash64 ''a9'' = 16676704126835458670"
  "xxhash64 ''a10'' = 658841436379557083" "xxhash64 ''a11'' = 6839931846258592987"
  "xxhash64 ''a12'' = 6743404690331036891" "xxhash64 ''a13'' = 12924495100210072795"
  "xxhash64 ''a14'' = 12827967944282516699" "xxhash64 ''a15'' = 562314280452000987"
  "xxhash64 ''a16'' = 465787124524444891" "xxhash64 ''a17'' = 6646877534403480795"
  "xxhash64 ''a18'' = 6550350378475924699" "xxhash64 ''a19'' = 12731440788354960603"
  by (simp_all add: xxhash64_def xxhash64_step_def Let_def)

lemma matching_positions_hit:
  "matching_positions hit_db
     [''a0'', ''a1'', ''a2'', ''a3'', ''a4'', ''a5'', ''a6'', ''a7'', ''a8'', ''a9'', ''a10'',
      ''a11'', ''a12'', ''a13'', ''a14'', ''a15'', ''a16'', ''a17'', ''a18'', ''a19''] 0 = [3]"
  unfolding matching_positions_def hasAddress_hit_db
  by (simp add: xxhash64_values upt_rec [of 0 "Suc n" for n] upt_rec [of "Suc m" "Suc n" for m n])

lemma replicate_12:
  "replicate 12 x = [x, x, x, x, x, x, x, x, x, x, x, x]"
proof -
  have e: "(12::nat) = Suc (Suc (Suc (Suc (Suc (Suc (Suc (Suc (Suc (Suc (Suc (Suc 0)))))))))))"
    by simp
  show ?thesis
    unfolding e by simp
qed

lemma checkSeedPhrase_hit:
  "checkSeedPhrase matching_libs hit_db phrase
     = Inr ([Hole, Hole, Hole, Hole, Hole, Hole, Hole, Hole, Hole, Hole, Hole, Hole,
             Item \<lparr>index = 3, address = ''a3'', path = ''m/44'/0'/0'/0/3''\<rparr>], True)"
proof -
  have "checkSeedPhrase matching_libs hit_db phrase
          = Inr (replicate 12 Hole
                   @ map (found_entry
                       [''a0'', ''a1'', ''a2'', ''a3'', ''a4'', ''a5'', ''a6'', ''a7'', ''a8'', ''a9'',
                        ''a10'', ''a11'', ''a12'', ''a13'', ''a14'', ''a15'', ''a16'', ''a17'', ''a18'',
                        ''a19'']) [3],
                 [3::nat] \<noteq> [])"
    using checkSeedPhrase_result [of matching_libs hit_db phrase]
    unfolding generateAddresses_matching matching_positions_hit .
  then show ?thesis
    by (simp add: replicate_12 found_entry_def path_prefix_def show_nat.simps)
qed


text \<open>
  Claim C7. The array returned for a combination with a hit starts with the 12 empty
  slots of \<open>new Array(12)\<close>; the entries for the matching keys come after them. With the
  database \<open>hit_db\<close> exactly one derived key (position 3) matches, yet the array has 13
  elements, and 13 is the number printed as "Addresses with balance found".
\<close>

theorem checkSeedPhrase_leading_empty_slots:
  "matching_positions hit_db (generateAddresses matching_libs first_phrase 20) 0 = [3]
   \<and> checkSeedPhrase matching_libs hit_db first_phrase
       = Inr ([Hole, Hole, Hole, Hole, Hole, Hole, Hole, Hole, Hole, Hole, Hole, Hole,
               Item \<lparr>index = 3, address = ''a3'', path = ''m/44'/0'/0'/0/3''\<rparr>], True)
   \<and> iteration_output matching_libs hit_db numbered_wordlist first_combination
       = [SeedFound first_phrase 13]"
  by (simp add: checkSeedPhrase_hit generateAddresses_matching matching_positions_hit
      iteration_output_def first_phrase_eq Let_def)


section \<open>Passes of the search loop\<close>

lemma iteration_rejecting:
  "iteration rejecting_libs now st indices = Inr (count_attempt st indices)"
  by (rule iteration_no_addresses) (simp add: generateAddresses_rejected rejecting_libs_def)

lemma first_combination_eq: "first_combination = [0,1,2,3,4,5,6,7,8,9,10,11]"
  unfolding first_combination_def by (simp add: upt_rec)

lemma nextCombination_last:
  "length P = 11 \<Longrightarrow> x \<noteq> 2047 \<Longrightarrow> nextCombination (P @ [x]) = (True, P @ [x + 1])"
  by (simp add: nextCombination_def scan_back_numeral nth_append Let_def list_update_append)

text \<open>
  While only the last position moves, no pass finds a match and nothing happens at a
  yield, \<open>f\<close> passes of the loop advance the last index by \<open>f\<close> and the counters by \<open>f\<close>.
\<close>

lemma js_increment_small: "n < 2 ^ 53 \<Longrightarrow> js_increment n = Suc n"
  by (simp add: js_increment_def)

text \<open>At \<open>2^53\<close> the counter stops; two above it, it moves by two.\<close>

lemma js_increment_large:
  "js_increment 9007199254740992 = 9007199254740992"
  "js_increment 9007199254740994 = 9007199254740996"
  by (simp_all add: js_increment_def)

lemma search_loop_last_position:
  assumes quiet: "\<And>now st ind. iteration (libs S) now st ind = Inr (count_attempt st ind)"
    and P: "length P = 11"
  shows "x + f \<le> 2047 \<Longrightarrow>
         a + f < 2 ^ 53 \<Longrightarrow>
         checkedCombinations st + f < 2 ^ 53 \<Longrightarrow>
         sessionCombinations st + f < 2 ^ 53 \<Longrightarrow>
         (\<forall>n. a < n \<and> n \<le> a + f \<and> n mod 1000 = 0 \<longrightarrow> \<not> sigint S n \<and> \<not> timer_due S n) \<Longrightarrow>
         search_loop (f + g) S a st (P @ [x]) file
           = search_loop g S (a + f)
               (if f = 0 then st
                else st\<lparr>checkedCombinations := checkedCombinations st + f,
                        sessionCombinations := sessionCombinations st + f,
                        currentIndices := Some (P @ [x + f - 1])\<rparr>)
               (P @ [x + f]) file"
proof (induction f arbitrary: a st x)
  case 0
  then show ?case by simp
next
  case (Suc f)
  have x: "x \<noteq> 2047" using Suc.prems by auto
  have ja: "js_increment a = Suc a"
    using Suc.prems(2) by (intro js_increment_small) simp
  have jc: "js_increment (checkedCombinations st) = Suc (checkedCombinations st)"
    using Suc.prems(3) by (intro js_increment_small) simp
  have js: "js_increment (sessionCombinations st) = Suc (sessionCombinations st)"
    using Suc.prems(4) by (intro js_increment_small) simp
  have a: "Suc a mod 1000 = 0 \<longrightarrow> \<not> sigint S (Suc a) \<and> \<not> timer_due S (Suc a)"
    using Suc.prems(5) by simp
  have y: "(if Suc a mod 1000 = 0
            then yield_to_event_loop S (Suc a) (count_attempt st (P @ [x])) file
            else (file, False)) = (file, False)"
    using a by (simp add: yield_to_event_loop_def)
  have "search_loop (Suc f + g) S a st (P @ [x]) file
          = search_loop (f + g) S (a + 1) (count_attempt st (P @ [x])) (P @ [x + 1]) file"
    by (simp add: quiet nextCombination_last [OF P x] Let_def ja y)
  also have "\<dots> = search_loop g S (a + 1 + f)
               (if f = 0 then count_attempt st (P @ [x])
                else (count_attempt st (P @ [x]))
                       \<lparr>checkedCombinations := checkedCombinations (count_attempt st (P @ [x])) + f,
                        sessionCombinations := sessionCombinations (count_attempt st (P @ [x])) + f,
                        currentIndices := Some (P @ [x + 1 + f - 1])\<rparr>)
               (P @ [x + 1 + f]) file"
    using Suc.prems by (intro Suc.IH) (auto simp: count_attempt_def jc js)
  finally show ?case
    by (simp add: count_attempt_def jc js)
qed

lemma quiet_iter: "iteration (libs quiet_session) now st ind = Inr (count_attempt st ind)"
  by (simp add: quiet_session_def iteration_rejecting)

lemma sig_iter: "iteration (libs sigint_at_1000) now st ind = Inr (count_attempt st ind)"
  by (simp add: sigint_at_1000_def iteration_rejecting)

lemma interrupted_session:
  "search_loop 1000 sigint_at_1000 0 (new_SeedPermutationRecovery hit_db numbered_wordlist)
       first_combination NoFile
   = (Interrupted,
      \<lparr>database = hit_db, wordlist = numbered_wordlist, checkedCombinations = 1000,
       sessionCombinations = 1000, foundSeeds = [],
       currentIndices = Some [0,1,2,3,4,5,6,7,8,9,10,1010]\<rparr>,
      Json \<lparr>cp_indices = Some [0,1,2,3,4,5,6,7,8,9,10,1010], cp_checkedCombinations = Some 1000,
            cp_foundSeeds = Some []\<rparr>)"
proof -
  let ?st = "new_SeedPermutationRecovery hit_db numbered_wordlist"
  have "search_loop (999 + 1) sigint_at_1000 0 ?st ([0,1,2,3,4,5,6,7,8,9,10] @ [11]) NoFile
        = search_loop 1 sigint_at_1000 (0 + 999)
            (if (999::nat) = 0 then ?st
             else ?st\<lparr>checkedCombinations := checkedCombinations ?st + 999,
                      sessionCombinations := sessionCombinations ?st + 999,
                      currentIndices := Some ([0,1,2,3,4,5,6,7,8,9,10] @ [11 + 999 - 1])\<rparr>)
            ([0,1,2,3,4,5,6,7,8,9,10] @ [11 + 999]) NoFile"
    by (rule search_loop_last_position [OF sig_iter])
       (simp_all add: sigint_at_1000_def new_SeedPermutationRecovery_def)
  then show ?thesis
    by (simp add: first_combination_eq sig_iter count_attempt_def js_increment_def
        new_SeedPermutationRecovery_def Let_def yield_to_event_loop_def saveCheckpoint_def)
       (simp add: sigint_at_1000_def)
qed

lemma uninterrupted_session:
  "search_loop 1001 quiet_session 0 (new_SeedPermutationRecovery hit_db numbered_wordlist)
       first_combination NoFile
   = (OutOfFuel,
      \<lparr>database = hit_db, wordlist = numbered_wordlist, checkedCombinations = 1001,
       sessionCombinations = 1001, foundSeeds = [],
       currentIndices = Some [0,1,2,3,4,5,6,7,8,9,10,1011]\<rparr>,
      NoFile)"
proof -
  let ?st = "new_SeedPermutationRecovery hit_db numbered_wordlist"
  have "search_loop (1001 + 0) quiet_session 0 ?st ([0,1,2,3,4,5,6,7,8,9,10] @ [11]) NoFile
        = search_loop 0 quiet_session (0 + 1001)
            (if (1001::nat) = 0 then ?st
             else ?st\<lparr>checkedCombinations := checkedCombinations ?st + 1001,
                      sessionCombinations := sessionCombinations ?st + 1001,
                      currentIndices := Some ([0,1,2,3,4,5,6,7,8,9,10] @ [11 + 1001 - 1])\<rparr>)
            ([0,1,2,3,4,5,6,7,8,9,10] @ [11 + 1001]) NoFile"
    by (rule search_loop_last_position [OF quiet_iter])
       (simp_all add: quiet_session_def new_SeedPermutationRecovery_def)
  then show ?thesis
    by (simp add: first_combination_eq new_SeedPermutationRecovery_def)
qed

lemma resumed_session:
  "main_run 1 quiet_session hit_db numbered_wordlist
      (Json \<lparr>cp_indices = Some [0,1,2,3,4,5,6,7,8,9,10,1010], cp_checkedCombinations = Some 1000,
            cp_foundSeeds = Some []\<rparr>)
   = (OutOfFuel,
      \<lparr>database = hit_db, wordlist = numbered_wordlist, checkedCombinations = 1001,
       sessionCombinations = 1, foundSeeds = [],
       currentIndices = Some [0,1,2,3,4,5,6,7,8,9,10,1010]\<rparr>,
      Json \<lparr>cp_indices = Some [0,1,2,3,4,5,6,7,8,9,10,1010], cp_checkedCombinations = Some 1000,
            cp_foundSeeds = Some []\<rparr>)"
  by (simp add: main_run_def startPermutationSearch_def loadCheckpoint_def quiet_iter
      new_SeedPermutationRecovery_def count_attempt_def js_increment_def Let_def
      nextCombination_def scan_back_numeral refill_numeral)

section \<open>Derivation errors\<close>

text \<open>
  A phrase whose derivation throws and a phrase that is not a valid mnemonic leave the
  search in the same state and print the same (nothing): the error is neither logged
  nor counted on its own.
\<close>

theorem derivation_error_not_distinguished:
  "generateAddresses_try throwing_libs first_phrase 20 = Inl Error
   \<and> generateAddresses_try rejecting_libs first_phrase 20 = Inr []
   \<and> iteration throwing_libs [] (new_SeedPermutationRecovery hit_db numbered_wordlist) first_combination
       = iteration rejecting_libs [] (new_SeedPermutationRecovery hit_db numbered_wordlist) first_combination
   \<and> iteration_output throwing_libs hit_db numbered_wordlist first_combination
       = iteration_output rejecting_libs hit_db numbered_wordlist first_combination"
proof -
  have t: "generateAddresses_try throwing_libs first_phrase 20 = Inl Error"
    by (simp add: generateAddresses_try_def throwing_libs_def)
  have r: "generateAddresses_try rejecting_libs first_phrase 20 = Inr []"
    by (simp add: generateAddresses_try_def rejecting_libs_def)
  have gt: "generateAddresses throwing_libs first_phrase 20 = []"
    by (simp add: generateAddresses_def t)
  have gr: "generateAddresses rejecting_libs first_phrase 20 = []"
    by (simp add: generateAddresses_def r)
  show ?thesis
    by (simp add: t r iteration_def iteration_output_def Let_def new_SeedPermutationRecovery_def
        count_attempt_def js_increment_def first_phrase_eq checkSeedPhrase_no_addresses gt gr)
qed


text \<open>
  Claim C8, as the code has it. When the derivation for a combination throws, the
  \<open>catch\<close> inside \<open>generateAddresses\<close> turns the error into an empty address list;
  \<open>checkSeedPhrase\<close> reports no match, the loop body finishes normally, the combination
  is counted as tested like any other, and nothing is printed.
\<close>

theorem derivation_error_is_silent_miss:
  assumes "generateAddresses_try L (generateCombination (wordlist st) indices) 20 = Inl e"
  shows "generateAddresses L (generateCombination (wordlist st) indices) 20 = []
         \<and> checkSeedPhrase L (database st) (generateCombination (wordlist st) indices)
             = Inr (replicate 12 Hole, False)
         \<and> iteration L now st indices = Inr (count_attempt st indices)
         \<and> iteration_output L (database st) (wordlist st) indices = []"
proof -
  have g: "generateAddresses L (generateCombination (wordlist st) indices) 20 = []"
    using assms by (rule generateAddresses_caught)
  then show ?thesis
    by (simp add: iteration_no_addresses checkSeedPhrase_no_addresses iteration_output_def Let_def)
qed

theorem derivation_error_is_silent_miss_witness:
  "generateAddresses_try throwing_libs
      (generateCombination (wordlist (new_SeedPermutationRecovery hit_db numbered_wordlist))
         first_combination) 20 = Inl Error
   \<and> iteration throwing_libs [] (new_SeedPermutationRecovery hit_db numbered_wordlist) first_combination
       = Inr \<lparr>database = hit_db, wordlist = numbered_wordlist, checkedCombinations = 1,
              sessionCombinations = 1, foundSeeds = [], currentIndices = Some first_combination\<rparr>
   \<and> iteration_output throwing_libs hit_db numbered_wordlist first_combination = []"
proof -
  have h: "generateAddresses_try throwing_libs
      (generateCombination (wordlist (new_SeedPermutationRecovery hit_db numbered_wordlist))
         first_combination) 20 = Inl Error"
    by (simp add: generateAddresses_try_def throwing_libs_def)
  from derivation_error_is_silent_miss [OF h, of "[]"] h show ?thesis
    by (simp add: new_SeedPermutationRecovery_def count_attempt_def js_increment_def)
qed


section \<open>Checkpoints\<close>

lemma stringify_no_hole:
  "Hole \<notin> set (foundAddresses fs) \<Longrightarrow> stringify_seed fs = fs"
proof -
  assume h: "Hole \<notin> set (foundAddresses fs)"
  have "map stringify_slot (foundAddresses fs) = foundAddresses fs"
  proof (rule map_idI)
    fix x assume "x \<in> set (foundAddresses fs)"
    with h have "x \<noteq> Hole" by auto
    then show "stringify_slot x = x"
      by (cases x) (simp_all add: stringify_slot_def)
  qed
  then show ?thesis by (simp add: stringify_seed_def)
qed

lemma checkpoint_roundtrip:
  assumes "currentIndices st = Some ind"
  shows "loadCheckpoint st0 (saveCheckpoint True st file)
           = st0\<lparr>currentIndices := Some ind,
                 checkedCombinations := checkedCombinations st,
                 foundSeeds := map stringify_seed (foundSeeds st)\<rparr>"
  using assms by (simp add: loadCheckpoint_def saveCheckpoint_def)

lemma checkpoint_roundtrip_no_holes:
  assumes "currentIndices st = Some ind"
    and "\<forall>fs \<in> set (foundSeeds st). Hole \<notin> set (foundAddresses fs)"
  shows "currentIndices (loadCheckpoint st0 (saveCheckpoint True st file)) = currentIndices st
         \<and> checkedCombinations (loadCheckpoint st0 (saveCheckpoint True st file)) = checkedCombinations st
         \<and> foundSeeds (loadCheckpoint st0 (saveCheckpoint True st file)) = foundSeeds st"
proof -
  have "map stringify_seed (foundSeeds st) = foundSeeds st"
    using assms(2) by (intro map_idI) (simp add: stringify_no_hole)
  with assms(1) show ?thesis
    by (simp add: checkpoint_roundtrip [OF assms(1)])
qed


text \<open>
  Claim C6. The state after a pass with a hit holds a found record whose address array
  starts with empty slots. Saving and loading it restores the indices and the counter,
  but the loaded found record has \<open>null\<close> where the saved one has empty slots: the two
  lists of found records differ. (Without empty slots all three are restored:
  \<open>checkpoint_roundtrip_no_holes\<close>.)
\<close>

theorem checkpoint_roundtrip_loses_empty_slots:
  "iteration matching_libs ''T'' (new_SeedPermutationRecovery hit_db numbered_wordlist) first_combination
     = Inr hit_state
   \<and> currentIndices (loadCheckpoint (new_SeedPermutationRecovery hit_db numbered_wordlist)
        (saveCheckpoint True hit_state NoFile)) = currentIndices hit_state
   \<and> checkedCombinations (loadCheckpoint (new_SeedPermutationRecovery hit_db numbered_wordlist)
        (saveCheckpoint True hit_state NoFile)) = checkedCombinations hit_state
   \<and> foundSeeds (loadCheckpoint (new_SeedPermutationRecovery hit_db numbered_wordlist)
        (saveCheckpoint True hit_state NoFile))
       = [\<lparr>seedPhrase = first_phrase,
           foundAddresses =
             [Null, Null, Null, Null, Null, Null, Null, Null, Null, Null, Null, Null,
              Item \<lparr>index = 3, address = ''a3'', path = ''m/44'/0'/0'/0/3''\<rparr>],
           filename = ''found_seed_T.txt''\<rparr>]
   \<and> foundSeeds (loadCheckpoint (new_SeedPermutationRecovery hit_db numbered_wordlist)
        (saveCheckpoint True hit_state NoFile)) \<noteq> foundSeeds hit_state"
proof -
  have it: "iteration matching_libs ''T'' (new_SeedPermutationRecovery hit_db numbered_wordlist)
              first_combination = Inr hit_state"
    by (simp add: iteration_def new_SeedPermutationRecovery_def count_attempt_def js_increment_def
        first_phrase_eq checkSeedPhrase_hit hit_state_def Let_def)
  have ld: "loadCheckpoint (new_SeedPermutationRecovery hit_db numbered_wordlist)
              (saveCheckpoint True hit_state NoFile)
            = \<lparr>database = hit_db, wordlist = numbered_wordlist,
               checkedCombinations = 1, sessionCombinations = 0,
               foundSeeds =
                 [\<lparr>seedPhrase = first_phrase,
                   foundAddresses =
                     [Null, Null, Null, Null, Null, Null, Null, Null, Null, Null, Null, Null,
                      Item \<lparr>index = 3, address = ''a3'', path = ''m/44'/0'/0'/0/3''\<rparr>],
                   filename = ''found_seed_T.txt''\<rparr>],
               currentIndices = Some first_combination\<rparr>"
    by (simp add: loadCheckpoint_def saveCheckpoint_def hit_state_def
        new_SeedPermutationRecovery_def stringify_seed_def stringify_slot_def)
  show ?thesis
    unfolding it ld by (simp add: hit_state_def)
qed


text \<open>
  A checkpoint whose indices are twelve times 5 is not a valid state. The next run
  takes it as its state and tests it as its first combination.
\<close>

theorem loadCheckpoint_keeps_invalid_state:
  "\<not> valid_state [5, 5, 5, 5, 5, 5, 5, 5, 5, 5, 5, 5]
   \<and> main_run 1 quiet_session hit_db numbered_wordlist
        (Json \<lparr>cp_indices = Some [5, 5, 5, 5, 5, 5, 5, 5, 5, 5, 5, 5],
               cp_checkedCombinations = Some 7, cp_foundSeeds = Some []\<rparr>)
      = (OutOfFuel,
         \<lparr>database = hit_db, wordlist = numbered_wordlist, checkedCombinations = 8,
          sessionCombinations = 1, foundSeeds = [],
          currentIndices = Some [5, 5, 5, 5, 5, 5, 5, 5, 5, 5, 5, 5]\<rparr>,
         Json \<lparr>cp_indices = Some [5, 5, 5, 5, 5, 5, 5, 5, 5, 5, 5, 5],
               cp_checkedCombinations = Some 7, cp_foundSeeds = Some []\<rparr>)"
  by (simp add: valid_state_def main_run_def startPermutationSearch_def loadCheckpoint_def
      quiet_iter new_SeedPermutationRecovery_def count_attempt_def js_increment_def Let_def
      nextCombination_def scan_back_numeral refill_numeral)


text \<open>
  The first pass of a session tests the restored indices, or the first combination when
  there are none, and counts it.
\<close>

lemma first_pass:
  "\<exists>out st1 file1.
      startPermutationSearch 1 S st0 file = (out, st1, file1)
      \<and> currentIndices st1
          = Some (case currentIndices st0 of Some ci \<Rightarrow> ci | None \<Rightarrow> first_combination)
      \<and> checkedCombinations st1 = js_increment (checkedCombinations st0)
      \<and> sessionCombinations st1 = js_increment (sessionCombinations st0)"
proof -
  define ind where "ind = (case currentIndices st0 of Some ci \<Rightarrow> ci | None \<Rightarrow> first_combination)"
  have one: "js_increment 0 = 1"
    by (simp add: js_increment_def)
  obtain st1 where st1: "iteration (libs S) (clock S 1) st0 ind = Inr st1"
    "currentIndices st1 = Some ind"
    "checkedCombinations st1 = js_increment (checkedCombinations st0)"
    "sessionCombinations st1 = js_increment (sessionCombinations st0)"
    using iteration_total [of "libs S" "clock S 1" st0 ind] by blast
  obtain b ind1 where nc: "nextCombination ind = (b, ind1)"
    by (cases "nextCombination ind")
  have run: "startPermutationSearch 1 S st0 file
               = (if b then (OutOfFuel, st1, file)
                  else (Exhausted, st1\<lparr>currentIndices := Some ind1\<rparr>,
                        saveCheckpoint (disk_ok S) (st1\<lparr>currentIndices := Some ind1\<rparr>) file))"
    using st1(1) nc by (simp add: startPermutationSearch_def Let_def ind_def [symmetric] one)
  show ?thesis
  proof (cases b)
    case True
    with run st1 show ?thesis by (simp add: ind_def)
  next
    case False
    with nc have "ind1 = ind" by (simp add: nextCombination_False)
    with False run st1 show ?thesis by (simp add: ind_def)
  qed
qed

text \<open>
  Claim C5, as the code has it. \<open>loadCheckpoint\<close> does not validate the restored state:
  whatever array of indices the file holds, valid or not, becomes the current state,
  and the search tests it as the first combination of the session, counting on from
  the restored counter. When the file is missing, cannot be parsed or holds no
  indices, \<open>loadCheckpoint\<close> changes nothing and the search starts from the first
  combination with the counter at 1.
\<close>

theorem loadCheckpoint_restores_any_indices:
  "(cp_indices cp = Some ind \<longrightarrow>
      currentIndices (loadCheckpoint st (Json cp)) = Some ind
      \<and> (\<exists>out st1 file1.
            main_run 1 S db wl (Json cp) = (out, st1, file1)
            \<and> currentIndices st1 = Some ind
            \<and> sessionCombinations st1 = 1
            \<and> checkedCombinations st1
                = js_increment (case cp_checkedCombinations cp of None \<Rightarrow> 0 | Some n \<Rightarrow> n)))
   \<and> (file = NoFile \<or> file = Unparsable \<or> (\<exists>cp0. file = Json cp0 \<and> cp_indices cp0 = None) \<longrightarrow>
      loadCheckpoint st file = st
      \<and> (\<exists>out st1 file1.
            main_run 1 S db wl file = (out, st1, file1)
            \<and> currentIndices st1 = Some first_combination
            \<and> sessionCombinations st1 = 1
            \<and> checkedCombinations st1 = 1))"
proof (intro conjI impI)
  have one: "js_increment 0 = 1"
    by (simp add: js_increment_def)
  {
    assume h: "cp_indices cp = Some ind"
    show "currentIndices (loadCheckpoint st (Json cp)) = Some ind"
      using h by (simp add: loadCheckpoint_def)
    let ?st0 = "loadCheckpoint (new_SeedPermutationRecovery db wl) (Json cp)"
    have ci: "currentIndices ?st0 = Some ind"
      and cc: "checkedCombinations ?st0
                 = (case cp_checkedCombinations cp of None \<Rightarrow> 0 | Some n \<Rightarrow> n)"
      and sc: "sessionCombinations ?st0 = 0"
      using h by (simp_all add: loadCheckpoint_def new_SeedPermutationRecovery_def)
    from first_pass [of S ?st0 "Json cp"]
    show "\<exists>out st1 file1.
            main_run 1 S db wl (Json cp) = (out, st1, file1)
            \<and> currentIndices st1 = Some ind
            \<and> sessionCombinations st1 = 1
            \<and> checkedCombinations st1
                = js_increment (case cp_checkedCombinations cp of None \<Rightarrow> 0 | Some n \<Rightarrow> n)"
      unfolding main_run_def ci cc sc one option.case by blast
  }
  {
    assume f: "file = NoFile \<or> file = Unparsable \<or> (\<exists>cp0. file = Json cp0 \<and> cp_indices cp0 = None)"
    have same: "loadCheckpoint st' file = st'" for st'
      using f by (auto simp: loadCheckpoint_def)
    show "loadCheckpoint st file = st"
      by (rule same)
    let ?st0 = "new_SeedPermutationRecovery db wl"
    have ci: "currentIndices ?st0 = None"
      and cc: "checkedCombinations ?st0 = 0"
      and sc: "sessionCombinations ?st0 = 0"
      by (simp_all add: new_SeedPermutationRecovery_def)
    from first_pass [of S ?st0 "file"]
    show "\<exists>out st1 file1.
            main_run 1 S db wl file = (out, st1, file1)
            \<and> currentIndices st1 = Some first_combination
            \<and> sessionCombinations st1 = 1
            \<and> checkedCombinations st1 = 1"
      unfolding main_run_def same ci cc sc one option.case by blast
  }
qed

text \<open>
  The checkpoint with twelve times 5 is restored as it is; a file that cannot be parsed
  leaves the new object as it is.
\<close>

theorem loadCheckpoint_restores_any_indices_witness:
  "cp_indices \<lparr>cp_indices = Some [5, 5, 5, 5, 5, 5, 5, 5, 5, 5, 5, 5],
               cp_checkedCombinations = Some 7, cp_foundSeeds = Some []\<rparr>
     = Some [5, 5, 5, 5, 5, 5, 5, 5, 5, 5, 5, 5]
   \<and> currentIndices (loadCheckpoint (new_SeedPermutationRecovery hit_db numbered_wordlist)
        (Json \<lparr>cp_indices = Some [5, 5, 5, 5, 5, 5, 5, 5, 5, 5, 5, 5],
               cp_checkedCombinations = Some 7, cp_foundSeeds = Some []\<rparr>))
      = Some [5, 5, 5, 5, 5, 5, 5, 5, 5, 5, 5, 5]
   \<and> loadCheckpoint (new_SeedPermutationRecovery hit_db numbered_wordlist) Unparsable
      = new_SeedPermutationRecovery hit_db numbered_wordlist"
proof -
  have h: "cp_indices \<lparr>cp_indices = Some [5, 5, 5, 5, 5, 5, 5, 5, 5, 5, 5, 5],
               cp_checkedCombinations = Some 7, cp_foundSeeds = Some []\<rparr>
     = Some [5, 5, 5, 5, 5, 5, 5, 5, 5, 5, 5, 5::nat]"
    by simp
  have u: "Unparsable = NoFile \<or> Unparsable = Unparsable
           \<or> (\<exists>cp0. Unparsable = Json cp0 \<and> cp_indices cp0 = None)"
    by simp
  from loadCheckpoint_restores_any_indices
         [of "\<lparr>cp_indices = Some [5, 5, 5, 5, 5, 5, 5, 5, 5, 5, 5, 5],
               cp_checkedCombinations = Some 7, cp_foundSeeds = Some []\<rparr>"
             "[5, 5, 5, 5, 5, 5, 5, 5, 5, 5, 5, 5]"
             "new_SeedPermutationRecovery hit_db numbered_wordlist"
             quiet_session hit_db numbered_wordlist Unparsable]
       h u
  show ?thesis
    by blast
qed


section \<open>Interrupting and resuming\<close>

text \<open>
  Claim C1. A search started without a checkpoint and interrupted by SIGINT at its
  first yield has tested 1000 combinations, the last being \<open>[0, ..., 10, 1010]\<close>, and its
  checkpoint holds these indices with the counter 1000. The next run starts with the
  same combination: after its first pass the counter is 1001 and the current
  combination is again \<open>[0, ..., 10, 1010]\<close>. A run that is not interrupted reaches the
  counter 1001 on \<open>[0, ..., 10, 1011]\<close>. So the combination of the checkpoint is tested
  twice and counted twice.
\<close>

theorem resume_repeats_checkpoint_combination:
  "main_run 1000 sigint_at_1000 hit_db numbered_wordlist NoFile
     = (Interrupted,
        \<lparr>database = hit_db, wordlist = numbered_wordlist, checkedCombinations = 1000,
         sessionCombinations = 1000, foundSeeds = [],
         currentIndices = Some [0,1,2,3,4,5,6,7,8,9,10,1010]\<rparr>,
        Json \<lparr>cp_indices = Some [0,1,2,3,4,5,6,7,8,9,10,1010], cp_checkedCombinations = Some 1000,
              cp_foundSeeds = Some []\<rparr>)
   \<and> main_run 1 quiet_session hit_db numbered_wordlist
        (Json \<lparr>cp_indices = Some [0,1,2,3,4,5,6,7,8,9,10,1010], cp_checkedCombinations = Some 1000,
              cp_foundSeeds = Some []\<rparr>)
     = (OutOfFuel,
        \<lparr>database = hit_db, wordlist = numbered_wordlist, checkedCombinations = 1001,
         sessionCombinations = 1, foundSeeds = [],
         currentIndices = Some [0,1,2,3,4,5,6,7,8,9,10,1010]\<rparr>,
        Json \<lparr>cp_indices = Some [0,1,2,3,4,5,6,7,8,9,10,1010], cp_checkedCombinations = Some 1000,
              cp_foundSeeds = Some []\<rparr>)
   \<and> main_run 1001 quiet_session hit_db numbered_wordlist NoFile
     = (OutOfFuel,
        \<lparr>database = hit_db, wordlist = numbered_wordlist, checkedCombinations = 1001,
         sessionCombinations = 1001, foundSeeds = [],
         currentIndices = Some [0,1,2,3,4,5,6,7,8,9,10,1011]\<rparr>,
        NoFile)"
proof -
  have fresh: "main_run fuel S hit_db numbered_wordlist NoFile
      = search_loop fuel S 0 (new_SeedPermutationRecovery hit_db numbered_wordlist)
          first_combination NoFile" for fuel and S :: "unit session"
    by (simp add: main_run_def startPermutationSearch_def loadCheckpoint_def
        new_SeedPermutationRecovery_def)
  show ?thesis
    unfolding fresh interrupted_session uninterrupted_session resumed_session by simp
qed

end
